theory Spec2Isabelle
  imports Complex_Main "HOL-Library.Word" "HOL-Library.Product_Lexorder" "HOL-Library.Multiset"
begin

section \<open>Strings\<close>

text \<open>
  A JavaScript string is a sequence of UTF-16 code units. The spread \<open>[...s]\<close> iterates a
  string by code points: a high surrogate followed by a low surrogate is one element, every
  other code unit (a lone surrogate included) is an element of its own. Each element is
  itself a string, and the grid stores such one-code-point strings in its cells.
\<close>

type_synonym code_unit = "16 word"
type_synonym jsstring = "code_unit list"

definition is_high_surrogate :: "code_unit \<Rightarrow> bool" where
  "is_high_surrogate u \<longleftrightarrow> 0xD800 \<le> u \<and> u \<le> 0xDBFF"

definition is_low_surrogate :: "code_unit \<Rightarrow> bool" where
  "is_low_surrogate u \<longleftrightarrow> 0xDC00 \<le> u \<and> u \<le> 0xDFFF"

fun spread :: "jsstring \<Rightarrow> jsstring list" where
  "spread [] = []"
| "spread [u] = [[u]]"
| "spread (u # v # us) =
     (if is_high_surrogate u \<and> is_low_surrogate v then [u, v] # spread us
      else [u] # spread (v # us))"

section \<open>normalizeJapanese\<close>

text \<open>
  \<open>text.split('').map(...)\<close> works on single code units: a unit in 0x3041..0x3096 is
  replaced by \<open>String.fromCharCode(code + 0x60)\<close>, which is addition on 16 bits.
\<close>

definition hiraganaToKatakana :: "code_unit \<Rightarrow> code_unit" where
  "hiraganaToKatakana code = (if 0x3041 \<le> code \<and> code \<le> 0x3096 then code + 0x60 else code)"

text \<open>\<open>.replace(/x/g, 'y')\<close> for a pattern and a replacement of one code unit each.\<close>

definition replaceAll :: "code_unit \<Rightarrow> code_unit \<Rightarrow> jsstring \<Rightarrow> jsstring" where
  "replaceAll x y s = map (\<lambda>u. if u = x then y else u) s"

definition foldSmallKana :: "jsstring \<Rightarrow> jsstring" where
  "foldSmallKana s =
     replaceAll 0x30EE 0x30EF
      (replaceAll 0x30E7 0x30E8
       (replaceAll 0x30E5 0x30E6
        (replaceAll 0x30E3 0x30E4
         (replaceAll 0x30C3 0x30C4
          (replaceAll 0x30A9 0x30AA
           (replaceAll 0x30A7 0x30A8
            (replaceAll 0x30A5 0x30A6
             (replaceAll 0x30A3 0x30A4
              (replaceAll 0x30A1 0x30A2 s)))))))))"

text \<open>
  The last step is the built-in \<open>String.prototype.toUpperCase\<close>, which is not part of the
  repository: it is the parameter \<open>upper\<close> of the model. What the development needs of
  it is collected in \<open>case_mapping\<close>: upper-casing twice is upper-casing once, and it
  never produces a hiragana or small-kana code unit from a string that has none. The
  Unicode default case conversion has both properties (kana have no case).
\<close>

definition normalizeJapanese :: "(jsstring \<Rightarrow> jsstring) \<Rightarrow> jsstring \<Rightarrow> jsstring" where
  "normalizeJapanese upper text = upper (foldSmallKana (map hiraganaToKatakana text))"

definition small_kana :: "code_unit list" where
  "small_kana = [0x30A1, 0x30A3, 0x30A5, 0x30A7, 0x30A9, 0x30C3, 0x30E3, 0x30E5, 0x30E7, 0x30EE]"

definition kana_folded_unit :: "code_unit \<Rightarrow> bool" where
  "kana_folded_unit u \<longleftrightarrow> \<not> (0x3041 \<le> u \<and> u \<le> 0x3096) \<and> u \<notin> set small_kana"

definition kana_folded :: "jsstring \<Rightarrow> bool" where
  "kana_folded s = list_all kana_folded_unit s"

definition case_mapping :: "(jsstring \<Rightarrow> jsstring) \<Rightarrow> bool" where
  "case_mapping upper \<longleftrightarrow>
     (\<forall>s. upper (upper s) = upper s) \<and> (\<forall>s. kana_folded s \<longrightarrow> kana_folded (upper s))"

text \<open>
  Modelled from the spec: the built-in \<open>toUpperCase\<close>, as far as the spec describes it
  ("Uppercase Latin letters"). It is the instance at which the theorems about
  \<open>normalizeJapanese\<close> are evaluated.
\<close>

definition upperLatinUnit :: "code_unit \<Rightarrow> code_unit" where
  "upperLatinUnit u = (if 0x61 \<le> u \<and> u \<le> 0x7A then u - 0x20 else u)"

definition upperLatin :: "jsstring \<Rightarrow> jsstring" where
  "upperLatin s = map upperLatinUnit s"

section \<open>The grid and the placement engine\<close>

text \<open>
  A cell of the working grid is \<open>null\<close> (\<open>None\<close>) or a one-code-point string. Rows,
  columns and lengths are non-negative integers; a test \<open>x < size - 1\<close> of the source is
  written \<open>x + 1 < size\<close>, and \<open>hCol = c - i; hCol >= 0\<close> is written \<open>i \<le> c\<close>, so that
  truncating subtraction on \<open>nat\<close> never replaces a negative number of the source.
  The grid is square and every read of the source is in range whenever the start cell is in
  range (the run is tested against the size before any cell is read); the theorems below
  carry these conditions as hypotheses.
\<close>

type_synonym grid = "jsstring option list list"

record Placement =
  pl_row :: nat
  pl_col :: nat
  pl_horizontal :: bool
  pl_intersections :: nat

text \<open>
  The loop of \<open>canPlaceWord\<close>: \<open>None\<close> is an early \<open>return false\<close>, \<open>Some h\<close> is the value
  of \<open>hasIntersection\<close> when the loop has run to its end.
\<close>

function canPlaceWord_loop ::
  "grid \<Rightarrow> jsstring list \<Rightarrow> nat \<Rightarrow> nat \<Rightarrow> bool \<Rightarrow> nat \<Rightarrow> bool \<Rightarrow> bool option" where
  "canPlaceWord_loop grid chars row col horizontal i hasIntersection =
     (if i < length chars then
        (let r = (if horizontal then row else row + i);
             c = (if horizontal then col + i else col);
             existing = grid ! r ! c
         in if existing \<noteq> None then
              (if existing \<noteq> Some (chars ! i) then None
               else canPlaceWord_loop grid chars row col horizontal (i + 1) True)
            else if horizontal then
              (if r > 0 \<and> grid ! (r - 1) ! c \<noteq> None then None
               else if r + 1 < length grid \<and> grid ! (r + 1) ! c \<noteq> None then None
               else canPlaceWord_loop grid chars row col horizontal (i + 1) hasIntersection)
            else
              (if c > 0 \<and> grid ! r ! (c - 1) \<noteq> None then None
               else if c + 1 < length grid \<and> grid ! r ! (c + 1) \<noteq> None then None
               else canPlaceWord_loop grid chars row col horizontal (i + 1) hasIntersection))
      else Some hasIntersection)"
  by pat_completeness auto
termination
  by (relation "measure (\<lambda>(grid, chars, row, col, horizontal, i, h). length chars - i)") auto

definition canPlaceWord :: "grid \<Rightarrow> jsstring \<Rightarrow> nat \<Rightarrow> nat \<Rightarrow> bool \<Rightarrow> bool \<Rightarrow> bool" where
  "canPlaceWord grid word row col horizontal requireIntersection =
     (let n = length grid; chars = spread word; len = length chars
      in if (if horizontal
             then col + len > n
                  \<or> (col > 0 \<and> grid ! row ! (col - 1) \<noteq> None)
                  \<or> (col + len < n \<and> grid ! row ! (col + len) \<noteq> None)
             else row + len > n
                  \<or> (row > 0 \<and> grid ! (row - 1) ! col \<noteq> None)
                  \<or> (row + len < n \<and> grid ! (row + len) ! col \<noteq> None))
         then False
         else (case canPlaceWord_loop grid chars row col horizontal 0 False of
                 None \<Rightarrow> False
               | Some hasIntersection \<Rightarrow> \<not> (requireIntersection \<and> \<not> hasIntersection)))"

definition countIntersections :: "grid \<Rightarrow> jsstring \<Rightarrow> nat \<Rightarrow> nat \<Rightarrow> bool \<Rightarrow> nat" where
  "countIntersections grid word row col horizontal =
     length (filter (\<lambda>i. grid ! (if horizontal then row else row + i)
                              ! (if horizontal then col + i else col) \<noteq> None)
                    [0..<length (spread word)])"

text \<open>
  The nested loops of \<open>findPlacements\<close> push placements in the order of the iteration; the
  model concatenates the same pushes in the same order. \<open>Array.prototype.sort\<close> is stable,
  and so is \<open>sort_key\<close>; the comparator \<open>b.intersections - a.intersections\<close> sorts by
  descending number of intersections.
\<close>

definition intersectingPlacements :: "grid \<Rightarrow> jsstring \<Rightarrow> bool \<Rightarrow> Placement list" where
  "intersectingPlacements grid word requireIntersection =
     (let n = length grid; chars = spread word
      in concat (map (\<lambda>r. concat (map (\<lambda>c.
           (case grid ! r ! c of
              None \<Rightarrow> []
            | Some existingChar \<Rightarrow>
                concat (map (\<lambda>i.
                  if chars ! i = existingChar then
                    (if i \<le> c \<and> canPlaceWord grid word r (c - i) True requireIntersection
                     then [\<lparr>pl_row = r, pl_col = c - i, pl_horizontal = True,
                            pl_intersections = countIntersections grid word r (c - i) True\<rparr>]
                     else [])
                    @ (if i \<le> r \<and> canPlaceWord grid word (r - i) c False requireIntersection
                       then [\<lparr>pl_row = r - i, pl_col = c, pl_horizontal = False,
                              pl_intersections = countIntersections grid word (r - i) c False\<rparr>]
                       else [])
                  else []) [0..<length chars]))) [0..<n])) [0..<n]))"

definition adjacentPlacements :: "grid \<Rightarrow> jsstring \<Rightarrow> Placement list" where
  "adjacentPlacements grid word =
     (let n = length grid
      in concat (map (\<lambda>r. concat (map (\<lambda>c.
           (if canPlaceWord grid word r c True False
            then [\<lparr>pl_row = r, pl_col = c, pl_horizontal = True, pl_intersections = 0\<rparr>]
            else [])
           @ (if canPlaceWord grid word r c False False
              then [\<lparr>pl_row = r, pl_col = c, pl_horizontal = False, pl_intersections = 0\<rparr>]
              else [])) [0..<n])) [0..<n]))"

definition findPlacements :: "grid \<Rightarrow> jsstring \<Rightarrow> bool \<Rightarrow> Placement list" where
  "findPlacements grid word requireIntersection =
     (let placements = intersectingPlacements grid word requireIntersection;
          placements' = (if placements = [] \<and> \<not> requireIntersection
                         then adjacentPlacements grid word else placements)
      in sort_key (\<lambda>p. - int (pl_intersections p)) placements')"

text \<open>
  \<open>placeWord\<close> writes the code points of the word into the run, one cell after the other.
  (A write outside the grid would extend a JavaScript array or raise; \<open>list_update\<close> ignores
  it. Every call of the source follows a successful \<open>canPlaceWord\<close>, so the run is inside.)
\<close>

definition placeWord :: "grid \<Rightarrow> jsstring \<Rightarrow> nat \<Rightarrow> nat \<Rightarrow> bool \<Rightarrow> grid" where
  "placeWord grid word row col horizontal =
     (let chars = spread word
      in foldl (\<lambda>g i. let r = (if horizontal then row else row + i);
                           c = (if horizontal then col + i else col)
                       in g[r := (g ! r)[c := Some (chars ! i)]])
               grid [0..<length chars])"

text \<open>
  The density is \<open>(filled / total) * 100\<close> in floating point. The model computes the exact
  rational. For one grid size the rounded quotients are ordered as the exact ones (two
  different counts differ by far more than a rounding error), the rounded value at exactly
  four fifths is 80, and for the empty grid of size 0 both \<open>NaN\<close> and the \<open>0\<close> that HOL
  gives to \<open>0 / 0\<close> fail every comparison the source makes, so all comparisons agree.
\<close>

definition calculateDensity :: "grid \<Rightarrow> rat" where
  "calculateDensity grid =
     (let cells = concat grid;
          filled = length (filter (\<lambda>cell. cell \<noteq> None) cells);
          total = length cells
      in (of_nat filled / of_nat total) * 100)"

section \<open>generateCrossword\<close>

record WordClue =
  answer :: jsstring
  clue :: jsstring
  articleLink :: "jsstring option"
  articleId :: "nat option"

datatype orientation = Across | Down

record PlacedWord = WordClue +
  startRow :: nat
  startCol :: nat
  position :: nat
  orientation :: orientation
  wlength :: nat

record GridCell =
  letter :: "jsstring option"
  number :: "nat option"
  isBlack :: bool

record CrosswordResult =
  r_width :: nat
  r_height :: nat
  r_grid :: "GridCell list list"
  r_words :: "PlacedWord list"
  r_density :: rat

text \<open>An entry of the list \<open>placed\<close>, and the record kept in \<open>bestResult\<close>.\<close>

record Placed =
  p_word :: WordClue
  p_row :: nat
  p_col :: nat
  p_horizontal :: bool

record BestResult =
  b_grid :: grid
  b_placed :: "Placed list"
  b_density :: rat

datatype error = FailedToGenerate | PuzzleNotFound | ClueNotFound

text \<open>
  \<open>FailedToGenerate\<close> is \<open>Error('Failed to generate crossword')\<close>, the failure the
  specification calls InsufficientWords; \<open>ClueNotFound\<close> is its UnknownClue.
\<close>

definition glen :: "WordClue \<Rightarrow> nat" where
  "glen w = length (spread (answer w))"

definition prepareWords :: "(jsstring \<Rightarrow> jsstring) \<Rightarrow> WordClue list \<Rightarrow> nat \<Rightarrow> WordClue list" where
  "prepareWords upper wordList n =
     filter (\<lambda>w. 2 \<le> glen w \<and> glen w \<le> n)
            (map (\<lambda>w. w\<lparr>answer := normalizeJapanese upper (answer w)\<rparr>) wordList)"

fun removeDuplicates :: "jsstring set \<Rightarrow> WordClue list \<Rightarrow> WordClue list" where
  "removeDuplicates seen [] = []"
| "removeDuplicates seen (w # ws) =
     (if answer w \<in> seen then removeDuplicates seen ws
      else w # removeDuplicates (insert (answer w) seen) ws)"

text \<open>
  The comparator \<open>scoreA - scoreB || lenA - lenB\<close> orders by the pair (score, length).
\<close>

definition lengthScore :: "WordClue \<Rightarrow> nat" where
  "lengthScore w = (if 3 \<le> glen w \<and> glen w \<le> 5 then 0 else 1)"

definition sortByLength :: "WordClue list \<Rightarrow> WordClue list" where
  "sortByLength ws = sort_key (\<lambda>w. (lengthScore w, glen w)) ws"

definition minWords :: "nat \<Rightarrow> nat" where
  "minWords n = (if n \<le> 7 then 6 else if n \<le> 10 then 18 else if n \<le> 12 then 25 else 35)"

definition targetDensity :: rat where
  "targetDensity = 80"

definition maxAttempts :: nat where
  "maxAttempts = 100"

definition emptyGrid :: "nat \<Rightarrow> grid" where
  "emptyGrid n = replicate n (replicate n None)"

text \<open>
  The first word goes to the centre row. Every word that reaches this point has passed the
  length filter, so \<open>size - chars.length\<close> is not negative.
\<close>

definition placeFirst :: "nat \<Rightarrow> WordClue list \<Rightarrow> grid \<times> Placed list" where
  "placeFirst n shuffled =
     (case shuffled of
        [] \<Rightarrow> (emptyGrid n, [])
      | firstWord # _ \<Rightarrow>
          (let startCol = (n - glen firstWord) div 2;
               startRow = n div 2
           in if canPlaceWord (emptyGrid n) (answer firstWord) startRow startCol True False
              then (placeWord (emptyGrid n) (answer firstWord) startRow startCol True,
                    [\<lparr>p_word = firstWord, p_row = startRow, p_col = startCol,
                      p_horizontal = True\<rparr>])
              else (emptyGrid n, [])))"

definition placeBest :: "grid \<times> Placed list \<Rightarrow> WordClue \<Rightarrow> Placement list \<Rightarrow> grid \<times> Placed list" where
  "placeBest st w placements =
     (case placements of
        [] \<Rightarrow> st
      | best # _ \<Rightarrow>
          (placeWord (fst st) (answer w) (pl_row best) (pl_col best) (pl_horizontal best),
           snd st @ [\<lparr>p_word = w, p_row = pl_row best, p_col = pl_col best,
                      p_horizontal = pl_horizontal best\<rparr>]))"

definition placeRemaining :: "grid \<times> Placed list \<Rightarrow> WordClue \<Rightarrow> grid \<times> Placed list" where
  "placeRemaining st w = placeBest st w (findPlacements (fst st) (answer w) True)"

definition touchesEdge :: "nat \<Rightarrow> WordClue \<Rightarrow> Placement \<Rightarrow> bool" where
  "touchesEdge n w p \<longleftrightarrow>
     pl_row p = 0 \<or> pl_row p + 1 = n \<or> pl_col p = 0 \<or> pl_col p + 1 = n
     \<or> (pl_horizontal p \<and> pl_col p + glen w = n)
     \<or> (\<not> pl_horizontal p \<and> pl_row p + glen w = n)"

definition placeOnEdge :: "nat \<Rightarrow> grid \<times> Placed list \<Rightarrow> WordClue \<Rightarrow> grid \<times> Placed list" where
  "placeOnEdge n st w =
     placeBest st w (filter (touchesEdge n w) (findPlacements (fst st) (answer w) False))"

definition shortWords :: "WordClue list \<Rightarrow> Placed list \<Rightarrow> WordClue list" where
  "shortWords shuffled placed =
     filter (\<lambda>w. glen w \<le> 3)
       (filter (\<lambda>w. \<not> list_ex (\<lambda>p. answer (p_word p) = answer w) placed) shuffled)"

definition runAttempt :: "nat \<Rightarrow> WordClue list \<Rightarrow> BestResult" where
  "runAttempt n shuffled =
     (let st1 = foldl placeRemaining (placeFirst n shuffled) (drop 1 shuffled);
          st2 = foldl (placeOnEdge n) st1 (shortWords shuffled (snd st1))
      in \<lparr>b_grid = fst st2, b_placed = snd st2, b_density = calculateDensity (fst st2)\<rparr>)"

text \<open>
  The test that decides whether the attempt replaces \<open>bestResult\<close>:
  \<open>!bestResult || density > bestResult.density || placed.length > bestResult.placed.length\<close>.
\<close>

definition replacesBest :: "BestResult option \<Rightarrow> BestResult \<Rightarrow> bool" where
  "replacesBest bestResult cur =
     (case bestResult of
        None \<Rightarrow> True
      | Some b \<Rightarrow> b_density cur > b_density b \<or> length (b_placed cur) > length (b_placed b))"

text \<open>
  \<open>[...uniqueWords].sort(() => Math.random() - 0.5)\<close> returns some rearrangement of the
  list, decided by the random generator. The model takes the outcome as a parameter:
  \<open>rnd attempt ws\<close> is the list the sort returns in the given attempt. \<open>shuffler rnd\<close>
  says that every outcome is a rearrangement of its input.
\<close>

definition shuffler :: "(nat \<Rightarrow> WordClue list \<Rightarrow> WordClue list) \<Rightarrow> bool" where
  "shuffler rnd \<longleftrightarrow> (\<forall>k ws. mset (rnd k ws) = mset ws)"

function attemptLoop ::
  "(nat \<Rightarrow> WordClue list \<Rightarrow> WordClue list) \<Rightarrow> WordClue list \<Rightarrow> nat \<Rightarrow> nat
     \<Rightarrow> BestResult option \<Rightarrow> BestResult option" where
  "attemptLoop rnd uniqueWords n attempt bestResult =
     (if attempt < maxAttempts then
        (let cur = runAttempt n (rnd attempt uniqueWords);
             bestResult' = (if replacesBest bestResult cur then Some cur else bestResult)
         in if b_density cur \<ge> targetDensity \<and> length (b_placed cur) \<ge> minWords n
            then bestResult'
            else attemptLoop rnd uniqueWords n (attempt + 1) bestResult')
      else bestResult)"
  by pat_completeness auto
termination
  by (relation "measure (\<lambda>(rnd, uniqueWords, n, attempt, bestResult). maxAttempts - attempt)") auto

text \<open>The list \<open>uniqueWords\<close> after filtering, removal of duplicates and sorting.\<close>

definition uniqueWordsOf :: "(jsstring \<Rightarrow> jsstring) \<Rightarrow> WordClue list \<Rightarrow> nat \<Rightarrow> WordClue list" where
  "uniqueWordsOf upper wordList n =
     sortByLength (removeDuplicates {} (prepareWords upper wordList n))"

definition searchBest ::
  "(jsstring \<Rightarrow> jsstring) \<Rightarrow> (nat \<Rightarrow> WordClue list \<Rightarrow> WordClue list) \<Rightarrow> WordClue list \<Rightarrow> nat
     \<Rightarrow> BestResult option" where
  "searchBest upper rnd wordList n = attemptLoop rnd (uniqueWordsOf upper wordList n) n 0 None"

text \<open>Numbering: the two loops over the cells, with the counter \<open>positionNumber\<close>.\<close>

definition isHorizontalStart :: "grid \<Rightarrow> nat \<Rightarrow> nat \<Rightarrow> bool" where
  "isHorizontalStart grid r c \<longleftrightarrow>
     (c = 0 \<or> grid ! r ! (c - 1) = None) \<and> (c + 1 < length grid \<and> grid ! r ! (c + 1) \<noteq> None)"

definition isVerticalStart :: "grid \<Rightarrow> nat \<Rightarrow> nat \<Rightarrow> bool" where
  "isVerticalStart grid r c \<longleftrightarrow>
     (r = 0 \<or> grid ! (r - 1) ! c = None) \<and> (r + 1 < length grid \<and> grid ! (r + 1) ! c \<noteq> None)"

definition numberCell :: "grid \<Rightarrow> nat list list \<times> nat \<Rightarrow> nat \<times> nat \<Rightarrow> nat list list \<times> nat" where
  "numberCell grid st rc =
     (let numberGrid = fst st; positionNumber = snd st; r = fst rc; c = snd rc
      in if grid ! r ! c \<noteq> None \<and> (isHorizontalStart grid r c \<or> isVerticalStart grid r c)
         then (numberGrid[r := (numberGrid ! r)[c := positionNumber]], positionNumber + 1)
         else (numberGrid, positionNumber))"

definition readingOrder :: "nat \<Rightarrow> (nat \<times> nat) list" where
  "readingOrder n = concat (map (\<lambda>r. map (\<lambda>c. (r, c)) [0..<n]) [0..<n])"

definition assignNumbers :: "grid \<Rightarrow> nat list list" where
  "assignNumbers grid =
     (let n = length grid
      in fst (foldl (numberCell grid) (replicate n (replicate n 0), 1) (readingOrder n)))"

definition finalGrid :: "grid \<Rightarrow> nat list list \<Rightarrow> GridCell list list" where
  "finalGrid grid numberGrid =
     map (\<lambda>r. map (\<lambda>c. \<lparr>letter = grid ! r ! c,
                         number = (if numberGrid ! r ! c = 0 then None
                                   else Some (numberGrid ! r ! c)),
                         isBlack = (grid ! r ! c = None)\<rparr>)
                   [0..<length (grid ! r)])
         [0..<length grid]"

definition finalWord :: "nat list list \<Rightarrow> Placed \<Rightarrow> PlacedWord" where
  "finalWord numberGrid p =
     \<lparr>answer = answer (p_word p), clue = clue (p_word p),
      articleLink = articleLink (p_word p), articleId = articleId (p_word p),
      startRow = p_row p, startCol = p_col p,
      position = numberGrid ! p_row p ! p_col p,
      orientation = (if p_horizontal p then Across else Down),
      wlength = glen (p_word p)\<rparr>"

definition buildResult :: "nat \<Rightarrow> BestResult \<Rightarrow> CrosswordResult" where
  "buildResult n b =
     (let numberGrid = assignNumbers (b_grid b)
      in \<lparr>r_width = n, r_height = n,
          r_grid = finalGrid (b_grid b) numberGrid,
          r_words = map (finalWord numberGrid) (b_placed b),
          r_density = b_density b\<rparr>)"

definition generateCrossword ::
  "(jsstring \<Rightarrow> jsstring) \<Rightarrow> (nat \<Rightarrow> WordClue list \<Rightarrow> WordClue list) \<Rightarrow> WordClue list \<Rightarrow> nat
     \<Rightarrow> error + CrosswordResult" where
  "generateCrossword upper rnd wordList n =
     (case searchBest upper rnd wordList n of
        None \<Rightarrow> Inl FailedToGenerate
      | Some b \<Rightarrow> if b_placed b = [] then Inl FailedToGenerate else Inr (buildResult n b))"

section \<open>puzzleService\<close>

text \<open>
  The key of a clue is the template string \<open>`${number}-${orientation}`\<close>; clue numbers are
  non-negative integers, printed in decimal.
\<close>

fun decimal :: "nat \<Rightarrow> jsstring" where
  "decimal k = (if k < 10 then [0x30 + of_nat k]
                else decimal (k div 10) @ [0x30 + of_nat (k mod 10)])"

definition orientationName :: "orientation \<Rightarrow> jsstring" where
  "orientationName ori = (case ori of
       Across \<Rightarrow> [0x61, 0x63, 0x72, 0x6F, 0x73, 0x73]
     | Down \<Rightarrow> [0x64, 0x6F, 0x77, 0x6E])"

definition clueKey :: "nat \<Rightarrow> jsstring \<Rightarrow> jsstring" where
  "clueKey clueNumber direction = decimal clueNumber @ [0x2D] @ direction"

text \<open>
  The table \<open>_answers\<close> that \<open>createPuzzle\<close> builds with \<open>reduce\<close> over the words of the
  generated crossword: a later word with the same key overwrites an earlier one.
\<close>

definition answersOf :: "PlacedWord list \<Rightarrow> (jsstring \<rightharpoonup> jsstring)" where
  "answersOf ws =
     foldl (\<lambda>acc w. acc(clueKey (position w) (orientationName (orientation w)) \<mapsto> answer w))
           Map.empty ws"

text \<open>
  The stored puzzle, as far as \<open>checkAnswers\<close> and \<open>getHint\<close> read it. \<open>getPuzzle\<close> returns
  \<open>null\<close> for an unknown id (\<open>None\<close> below), and the table of a stored record may be missing.
\<close>

record Puzzle =
  pz_grid :: "GridCell list list"
  pz_words :: "PlacedWord list"
  pz_answers :: "(jsstring \<rightharpoonup> jsstring) option"

definition storedPuzzle :: "CrosswordResult \<Rightarrow> Puzzle" where
  "storedPuzzle res =
     \<lparr>pz_grid = r_grid res, pz_words = r_words res,
      pz_answers = Some (answersOf (r_words res))\<rparr>"

record CheckResult =
  correct :: "jsstring list"
  incorrect :: "jsstring list"

text \<open>
  One turn of the loop over \<open>Object.entries(answers)\<close>. \<open>!correctAnswer\<close> holds for a
  missing key and for the empty string.
\<close>

definition checkEntry ::
  "(jsstring \<Rightarrow> jsstring) \<Rightarrow> (jsstring \<rightharpoonup> jsstring) \<Rightarrow> CheckResult \<Rightarrow> jsstring \<times> jsstring
     \<Rightarrow> CheckResult" where
  "checkEntry upper tbl res entry =
     (case tbl (fst entry) of
        None \<Rightarrow> res
      | Some correctAnswer \<Rightarrow>
          if correctAnswer = [] then res
          else if normalizeJapanese upper (snd entry) = correctAnswer
          then res\<lparr>correct := correct res @ [fst entry]\<rparr>
          else res\<lparr>incorrect := incorrect res @ [fst entry]\<rparr>)"

definition checkAnswers ::
  "(jsstring \<Rightarrow> jsstring) \<Rightarrow> Puzzle option \<Rightarrow> (jsstring \<times> jsstring) list \<Rightarrow> error + CheckResult" where
  "checkAnswers upper puzzle answers =
     (case puzzle of
        None \<Rightarrow> Inl PuzzleNotFound
      | Some pz \<Rightarrow>
          (case pz_answers pz of
             None \<Rightarrow> Inl PuzzleNotFound
           | Some tbl \<Rightarrow>
               Inr (foldl (checkEntry upper tbl) \<lparr>correct = [], incorrect = []\<rparr> answers)))"

record HintResult =
  hint :: jsstring
  revealed :: nat
  total :: nat

definition getHint :: "Puzzle option \<Rightarrow> nat \<Rightarrow> jsstring \<Rightarrow> error + HintResult" where
  "getHint puzzle clueNumber direction =
     (case puzzle of
        None \<Rightarrow> Inl PuzzleNotFound
      | Some pz \<Rightarrow>
          (case pz_answers pz of
             None \<Rightarrow> Inl PuzzleNotFound
           | Some tbl \<Rightarrow>
               (case tbl (clueKey clueNumber direction) of
                  None \<Rightarrow> Inl ClueNotFound
                | Some stored \<Rightarrow>
                    if stored = [] then Inl ClueNotFound
                    else (let chars = spread stored
                          in Inr \<lparr>hint = hd chars @ concat (replicate (length chars - 1) [0xFF3F]),
                                  revealed = 1,
                                  total = length chars\<rparr>))))"

text \<open>What the ten replacements do to one code unit.\<close>

definition foldUnit :: "code_unit \<Rightarrow> code_unit" where
  "foldUnit u =
     (if u = 0x30A1 then 0x30A2 else if u = 0x30A3 then 0x30A4 else if u = 0x30A5 then 0x30A6
      else if u = 0x30A7 then 0x30A8 else if u = 0x30A9 then 0x30AA else if u = 0x30C3 then 0x30C4
      else if u = 0x30E3 then 0x30E4 else if u = 0x30E5 then 0x30E6 else if u = 0x30E7 then 0x30E8
      else if u = 0x30EE then 0x30EF else u)"

text \<open>
  Helper notions for the proofs about \<open>canPlaceWord\<close>: the cell of the run at index \<open>i\<close>,
  the test the loop body makes on it, and the three tests made before the loop.
\<close>

definition runRow :: "nat \<Rightarrow> bool \<Rightarrow> nat \<Rightarrow> nat" where
  "runRow row horizontal i = (if horizontal then row else row + i)"

definition runCol :: "nat \<Rightarrow> bool \<Rightarrow> nat \<Rightarrow> nat" where
  "runCol col horizontal i = (if horizontal then col + i else col)"

definition cellFits :: "grid \<Rightarrow> jsstring list \<Rightarrow> nat \<Rightarrow> nat \<Rightarrow> bool \<Rightarrow> nat \<Rightarrow> bool" where
  "cellFits grid chars row col horizontal i \<longleftrightarrow>
     (let r = runRow row horizontal i; c = runCol col horizontal i
      in case grid ! r ! c of
           Some existing \<Rightarrow> existing = chars ! i
         | None \<Rightarrow>
             if horizontal
             then \<not> (r > 0 \<and> grid ! (r - 1) ! c \<noteq> None) \<and> \<not> (r + 1 < length grid \<and> grid ! (r + 1) ! c \<noteq> None)
             else \<not> (c > 0 \<and> grid ! r ! (c - 1) \<noteq> None) \<and> \<not> (c + 1 < length grid \<and> grid ! r ! (c + 1) \<noteq> None))"

definition endsFree :: "grid \<Rightarrow> nat \<Rightarrow> nat \<Rightarrow> nat \<Rightarrow> bool \<Rightarrow> bool" where
  "endsFree grid len row col horizontal \<longleftrightarrow>
     (if horizontal
      then col + len \<le> length grid
           \<and> \<not> (col > 0 \<and> grid ! row ! (col - 1) \<noteq> None)
           \<and> \<not> (col + len < length grid \<and> grid ! row ! (col + len) \<noteq> None)
      else row + len \<le> length grid
           \<and> \<not> (row > 0 \<and> grid ! (row - 1) ! col \<noteq> None)
           \<and> \<not> (row + len < length grid \<and> grid ! (row + len) ! col \<noteq> None))"

text \<open>
  The specification's \<open>can_place\<close>, in the specification's words. Coordinates are integers, so
  that "the cell before the run" exists also at column or row 0, where it is out of bounds.
  \<open>blockedIfInside\<close> reads "is blocked, if in bounds".
\<close>

definition inside :: "grid \<Rightarrow> int \<Rightarrow> int \<Rightarrow> bool" where
  "inside grid r c \<longleftrightarrow> 0 \<le> r \<and> r < int (length grid) \<and> 0 \<le> c \<and> c < int (length grid)"

definition cellAt :: "grid \<Rightarrow> int \<Rightarrow> int \<Rightarrow> jsstring option" where
  "cellAt grid r c = grid ! nat r ! nat c"

definition blockedIfInside :: "grid \<Rightarrow> int \<Rightarrow> int \<Rightarrow> bool" where
  "blockedIfInside grid r c \<longleftrightarrow> (inside grid r c \<longrightarrow> cellAt grid r c = None)"

definition can_place :: "grid \<Rightarrow> jsstring \<Rightarrow> int \<Rightarrow> int \<Rightarrow> bool \<Rightarrow> bool \<Rightarrow> bool" where
  "can_place grid word row col horizontal require_intersection \<longleftrightarrow>
     (let chars = spread word; len = length chars;
          dr = (if horizontal then 0 else 1); dc = (if horizontal then 1 else 0);
          cr = (\<lambda>i. row + int i * dr); cc = (\<lambda>i. col + int i * dc)
      in (\<forall>i < len. inside grid (cr i) (cc i))
         \<and> blockedIfInside grid (row - dr) (col - dc)
         \<and> blockedIfInside grid (row + int len * dr) (col + int len * dc)
         \<and> (\<forall>i < len. cellAt grid (cr i) (cc i) = Some (chars ! i)
                \<or> (cellAt grid (cr i) (cc i) = None
                    \<and> blockedIfInside grid (cr i - dc) (cc i - dr)
                    \<and> blockedIfInside grid (cr i + dc) (cc i + dr)))
         \<and> (require_intersection \<longrightarrow> (\<exists>i < len. cellAt grid (cr i) (cc i) = Some (chars ! i))))"

text \<open>Example data: the 5 x 5 grid that holds the word at row 2, columns 1 and 2.\<close>

definition neko_grid :: grid where
  "neko_grid = placeWord (emptyGrid 5) [0x30CD, 0x30B3] 2 1 True"

text \<open>Example data: a stored puzzle with the answer of clue 4 across.\<close>

definition ukraine_puzzle :: Puzzle where
  "ukraine_puzzle = \<lparr>pz_grid = [], pz_words = [],
      pz_answers = Some (Map.empty(clueKey 4 (orientationName Across) \<mapsto> [0x30A6, 0x30AF, 0x30E9, 0x30A4, 0x30CA]))\<rparr>"

text \<open>
  Notions for the invariants of the synthesis: a square grid, the run of a placed word, the
  cells a placed word covers and the letter it puts there, and the invariant itself: every
  placed word lies on the grid with its letters, every letter cell is covered by a placed
  word, and every pair of adjacent letter cells lies on one placed word in that direction.
\<close>

definition square :: "nat \<Rightarrow> grid \<Rightarrow> bool" where
  "square n grid \<longleftrightarrow> length grid = n \<and> (\<forall>line \<in> set grid. length line = n)"

definition inRun :: "nat \<Rightarrow> nat \<Rightarrow> bool \<Rightarrow> nat \<Rightarrow> nat \<Rightarrow> nat \<Rightarrow> bool" where
  "inRun row col horizontal len r c \<longleftrightarrow>
     (if horizontal then r = row \<and> col \<le> c \<and> c < col + len
      else c = col \<and> row \<le> r \<and> r < row + len)"

definition runIndex :: "nat \<Rightarrow> nat \<Rightarrow> bool \<Rightarrow> nat \<Rightarrow> nat \<Rightarrow> nat" where
  "runIndex row col horizontal r c = (if horizontal then c - col else r - row)"

definition covers :: "Placed \<Rightarrow> nat \<Rightarrow> nat \<Rightarrow> bool" where
  "covers p r c = inRun (p_row p) (p_col p) (p_horizontal p) (glen (p_word p)) r c"

definition letterOf :: "Placed \<Rightarrow> nat \<Rightarrow> nat \<Rightarrow> jsstring" where
  "letterOf p r c =
     spread (answer (p_word p)) ! runIndex (p_row p) (p_col p) (p_horizontal p) r c"

definition wordFits :: "nat \<Rightarrow> Placed \<Rightarrow> bool" where
  "wordFits n p \<longleftrightarrow>
     (if p_horizontal p then p_row p < n \<and> p_col p + glen (p_word p) \<le> n
      else p_col p < n \<and> p_row p + glen (p_word p) \<le> n)"

definition wordOnGrid :: "nat \<Rightarrow> grid \<Rightarrow> Placed \<Rightarrow> bool" where
  "wordOnGrid n grid p \<longleftrightarrow>
     wordFits n p \<and> (\<forall>r c. covers p r c \<longrightarrow> grid ! r ! c = Some (letterOf p r c))"

definition lettersCovered :: "nat \<Rightarrow> grid \<Rightarrow> Placed list \<Rightarrow> bool" where
  "lettersCovered n grid placed \<longleftrightarrow>
     (\<forall>r < n. \<forall>c < n. grid ! r ! c \<noteq> None \<longrightarrow> (\<exists>p \<in> set placed. covers p r c))"

definition adjacentAcross :: "nat \<Rightarrow> grid \<Rightarrow> Placed list \<Rightarrow> bool" where
  "adjacentAcross n grid placed \<longleftrightarrow>
     (\<forall>r < n. \<forall>c. c + 1 < n \<longrightarrow> grid ! r ! c \<noteq> None \<longrightarrow> grid ! r ! (c + 1) \<noteq> None \<longrightarrow>
        (\<exists>p \<in> set placed. p_horizontal p \<and> covers p r c \<and> covers p r (c + 1)))"

definition adjacentDown :: "nat \<Rightarrow> grid \<Rightarrow> Placed list \<Rightarrow> bool" where
  "adjacentDown n grid placed \<longleftrightarrow>
     (\<forall>c < n. \<forall>r. r + 1 < n \<longrightarrow> grid ! r ! c \<noteq> None \<longrightarrow> grid ! (r + 1) ! c \<noteq> None \<longrightarrow>
        (\<exists>p \<in> set placed. \<not> p_horizontal p \<and> covers p r c \<and> covers p (r + 1) c))"

definition crossword_inv :: "nat \<Rightarrow> grid \<times> Placed list \<Rightarrow> bool" where
  "crossword_inv n st \<longleftrightarrow>
     square n (fst st) \<and> (\<forall>p \<in> set (snd st). wordOnGrid n (fst st) p)
     \<and> lettersCovered n (fst st) (snd st)
     \<and> adjacentAcross n (fst st) (snd st) \<and> adjacentDown n (fst st) (snd st)"

text \<open>A placement that \<open>findPlacements\<close> may return: inside the grid and accepted by \<open>canPlaceWord\<close>.\<close>

definition soundPlacement :: "grid \<Rightarrow> jsstring \<Rightarrow> Placement \<Rightarrow> bool" where
  "soundPlacement grid word p \<longleftrightarrow>
     pl_row p < length grid \<and> pl_col p < length grid
     \<and> (\<exists>req. canPlaceWord grid word (pl_row p) (pl_col p) (pl_horizontal p) req)"

text \<open>The cells that a word of the result spans, read from its start, orientation and length.\<close>

definition spans :: "PlacedWord \<Rightarrow> nat \<Rightarrow> nat \<Rightarrow> bool" where
  "spans w r c \<longleftrightarrow>
     (case orientation w of
        Across \<Rightarrow> r = startRow w \<and> startCol w \<le> c \<and> c < startCol w + wlength w
      | Down \<Rightarrow> c = startCol w \<and> startRow w \<le> r \<and> r < startRow w + wlength w)"

text \<open>
  Example data: the three candidates of the specification's first scenario on a 7 x 7 grid,
  the shuffle that leaves the order unchanged, the attempt it gives and the result built
  from it; and the single one-letter candidate of the fourth scenario.
\<close>

definition mkWord :: "jsstring \<Rightarrow> jsstring \<Rightarrow> WordClue" where
  "mkWord a c = \<lparr>answer = a, clue = c, articleLink = None, articleId = None\<rparr>"

definition s1_words :: "WordClue list" where
  "s1_words = [mkWord [0x30CD, 0x30B3] [0x63, 0x61, 0x74],
               mkWord [0x30B3, 0x30C8] [0x74, 0x68, 0x69, 0x6E, 0x67],
               mkWord [0x30C8, 0x30EA] [0x62, 0x69, 0x72, 0x64]]"

definition keepOrder :: "nat \<Rightarrow> WordClue list \<Rightarrow> WordClue list" where
  "keepOrder k ws = ws"

definition s1_best :: BestResult where
  "s1_best = \<lparr>b_grid =
    [[None, None, None, None, None, None, None],
     [None, None, None, None, None, None, None],
     [None, None, None, None, None, None, None],
     [None, None, Some [0x30CD], Some [0x30B3], None, None, None],
     [None, None, None, Some [0x30C8], Some [0x30EA], None, None],
     [None, None, None, None, None, None, None],
     [None, None, None, None, None, None, None]],
    b_placed =
      [\<lparr>p_word = mkWord [0x30CD, 0x30B3] [0x63, 0x61, 0x74], p_row = 3, p_col = 2, p_horizontal = True\<rparr>,
       \<lparr>p_word = mkWord [0x30B3, 0x30C8] [0x74, 0x68, 0x69, 0x6E, 0x67], p_row = 3, p_col = 3, p_horizontal = False\<rparr>,
       \<lparr>p_word = mkWord [0x30C8, 0x30EA] [0x62, 0x69, 0x72, 0x64], p_row = 4, p_col = 3, p_horizontal = True\<rparr>],
    b_density = 400 / 49\<rparr>"

definition s1_result :: CrosswordResult where
  "s1_result = buildResult 7 s1_best"

definition s4_words :: "WordClue list" where
  "s4_words = [mkWord [0x30A2] [0x41]]"

text \<open>A candidate survives the filter when its normalized answer has 2 to \<open>n\<close> graphemes.\<close>

definition survives :: "(jsstring \<Rightarrow> jsstring) \<Rightarrow> nat \<Rightarrow> WordClue \<Rightarrow> bool" where
  "survives upper n w \<longleftrightarrow>
     2 \<le> length (spread (normalizeJapanese upper (answer w)))
     \<and> length (spread (normalizeJapanese upper (answer w))) \<le> n"

text \<open>Example data: the keys "1-across", "2-down" and "3-across".\<close>

definition key_1_across :: jsstring where
  "key_1_across = [0x31, 0x2D, 0x61, 0x63, 0x72, 0x6F, 0x73, 0x73]"

definition key_2_down :: jsstring where
  "key_2_down = [0x32, 0x2D, 0x64, 0x6F, 0x77, 0x6E]"

definition key_3_across :: jsstring where
  "key_3_across = [0x33, 0x2D, 0x61, 0x63, 0x72, 0x6F, 0x73, 0x73]"

text \<open>
  Example data: three candidates on a 5 x 5 grid, the second of which extends the first by
  one grapheme on the left, with the attempt that takes them in this order and the result
  built from it.
\<close>

definition bug_words :: "WordClue list" where
  "bug_words = [mkWord [0x30A4, 0x30A6, 0x30A8] [0x61],
                mkWord [0x30A2, 0x30A4, 0x30A6, 0x30A8] [0x62],
                mkWord [0x30AB, 0x30AD, 0x30A6, 0x30AF, 0x30B1] [0x63]]"

definition bug_best :: BestResult where
  "bug_best = \<lparr>b_grid =
    [[None, None, Some [0x30AB], None, None],
     [None, None, Some [0x30AD], None, None],
     [Some [0x30A2], Some [0x30A4], Some [0x30A6], Some [0x30A8], None],
     [None, None, Some [0x30AF], None, None],
     [None, None, Some [0x30B1], None, None]],
    b_placed =
      [\<lparr>p_word = mkWord [0x30A4, 0x30A6, 0x30A8] [0x61], p_row = 2, p_col = 1, p_horizontal = True\<rparr>,
       \<lparr>p_word = mkWord [0x30A2, 0x30A4, 0x30A6, 0x30A8] [0x62], p_row = 2, p_col = 0, p_horizontal = True\<rparr>,
       \<lparr>p_word = mkWord [0x30AB, 0x30AD, 0x30A6, 0x30AF, 0x30B1] [0x63], p_row = 0, p_col = 2, p_horizontal = False\<rparr>],
    b_density = 32\<rparr>"

definition bug_result :: CrosswordResult where
  "bug_result = buildResult 5 bug_best"

text \<open>
  Example data: three candidates on a 6 x 6 grid, a shuffle that moves the last word to the
  front in the first attempt and keeps the order afterwards, and the results of the first
  and of the later attempts.
\<close>

definition sel_words :: "WordClue list" where
  "sel_words = [mkWord [0x30A2, 0x30A4, 0x30A6, 0x30A8] [0x61],
                mkWord [0x30A2, 0x30A4, 0x30A6, 0x30A8, 0x30AA] [0x62],
                mkWord [0x30AB, 0x30AD, 0x30AF, 0x30B1, 0x30B3, 0x30B5] [0x63]]"

definition lastFirstOnce :: "nat \<Rightarrow> WordClue list \<Rightarrow> WordClue list" where
  "lastFirstOnce k ws = (if k = 0 then rotate1 (rotate1 ws) else ws)"

definition sel_first :: BestResult where
  "sel_first = \<lparr>b_grid =
    [[None, None, None, None, None, None],
     [None, None, None, None, None, None],
     [None, None, None, None, None, None],
     [Some [0x30AB], Some [0x30AD], Some [0x30AF], Some [0x30B1], Some [0x30B3], Some [0x30B5]],
     [None, None, None, None, None, None],
     [None, None, None, None, None, None]],
    b_placed =
      [\<lparr>p_word = mkWord [0x30AB, 0x30AD, 0x30AF, 0x30B1, 0x30B3, 0x30B5] [0x63],
        p_row = 3, p_col = 0, p_horizontal = True\<rparr>],
    b_density = 50 / 3\<rparr>"

definition sel_second :: BestResult where
  "sel_second = \<lparr>b_grid =
    [[None, None, None, None, None, None],
     [None, None, None, None, None, None],
     [None, None, None, None, None, None],
     [None, Some [0x30A2], Some [0x30A4], Some [0x30A6], Some [0x30A8], Some [0x30AA]],
     [None, None, None, None, None, None],
     [None, None, None, None, None, None]],
    b_placed =
      [\<lparr>p_word = mkWord [0x30A2, 0x30A4, 0x30A6, 0x30A8] [0x61],
        p_row = 3, p_col = 1, p_horizontal = True\<rparr>,
       \<lparr>p_word = mkWord [0x30A2, 0x30A4, 0x30A6, 0x30A8, 0x30AA] [0x62],
        p_row = 3, p_col = 1, p_horizontal = True\<rparr>],
    b_density = 125 / 9\<rparr>"

section \<open>Normalization is idempotent\<close>

lemma hiraganaToKatakana_not_hiragana:
  "\<not> (0x3041 \<le> hiraganaToKatakana u \<and> hiraganaToKatakana u \<le> 0x3096)"
  unfolding hiraganaToKatakana_def by (auto; unat_arith)

lemma foldSmallKana_map: "foldSmallKana s = map foldUnit s"
  unfolding foldSmallKana_def replaceAll_def foldUnit_def by simp

lemma foldUnit_folded:
  "\<not> (0x3041 \<le> u \<and> u \<le> 0x3096) \<Longrightarrow> kana_folded_unit (foldUnit u)"
  unfolding kana_folded_unit_def foldUnit_def small_kana_def by simp

lemma foldUnit_id: "kana_folded_unit u \<Longrightarrow> foldUnit u = u"
  unfolding kana_folded_unit_def foldUnit_def small_kana_def by simp

lemma hiraganaToKatakana_id: "kana_folded_unit u \<Longrightarrow> hiraganaToKatakana u = u"
  unfolding kana_folded_unit_def hiraganaToKatakana_def by simp

lemma kana_folded_after_fold: "kana_folded (foldSmallKana (map hiraganaToKatakana s))"
  unfolding kana_folded_def foldSmallKana_map
  by (simp add: list_all_iff foldUnit_folded hiraganaToKatakana_not_hiragana)

lemma kana_folded_fixed:
  "kana_folded s \<Longrightarrow> foldSmallKana (map hiraganaToKatakana s) = s"
  unfolding kana_folded_def foldSmallKana_map
  by (simp add: list_all_iff foldUnit_id hiraganaToKatakana_id map_idI)

lemma upperLatinUnit_folded: "kana_folded_unit u \<Longrightarrow> kana_folded_unit (upperLatinUnit u)"
  unfolding kana_folded_unit_def small_kana_def upperLatinUnit_def
  by (auto; unat_arith)

lemma upperLatinUnit_idem: "upperLatinUnit (upperLatinUnit u) = upperLatinUnit u"
  unfolding upperLatinUnit_def by (auto; unat_arith)

lemma upperLatin_case_mapping: "case_mapping upperLatin"
  unfolding case_mapping_def kana_folded_def upperLatin_def
  by (simp add: list_all_iff upperLatinUnit_folded upperLatinUnit_idem)

lemma normalize_example:
  "normalizeJapanese upperLatin [0x306D, 0x3063, 0x30B3, 0x61] = [0x30CD, 0x30C4, 0x30B3, 0x41]"
  by (simp add: normalizeJapanese_def upperLatin_def upperLatinUnit_def foldSmallKana_def
      replaceAll_def hiraganaToKatakana_def)

text \<open>
  C9 (normalization idempotence): for every input string \<open>x\<close>, normalizing the normalized
  string gives the normalized string again, where normalization maps hiragana
  U+3041..U+3096 to katakana by adding 0x60, folds the ten small kana to their full-sized
  counterparts and upper-cases with the built-in case mapping.
\<close>

theorem normalize_idempotent:
  assumes "case_mapping upper"
  shows "normalizeJapanese upper (normalizeJapanese upper x) = normalizeJapanese upper x"
proof -
  let ?y = "foldSmallKana (map hiraganaToKatakana x)"
  have "kana_folded (upper ?y)"
    using assms kana_folded_after_fold unfolding case_mapping_def by blast
  then have "foldSmallKana (map hiraganaToKatakana (upper ?y)) = upper ?y"
    by (rule kana_folded_fixed)
  moreover have "upper (upper ?y) = upper ?y"
    using assms unfolding case_mapping_def by blast
  ultimately show ?thesis
    unfolding normalizeJapanese_def by simp
qed

theorem normalize_idempotent_witness:
  "case_mapping upperLatin \<and>
   normalizeJapanese upperLatin (normalizeJapanese upperLatin [0x306D, 0x3063, 0x30B3, 0x61])
     = normalizeJapanese upperLatin [0x306D, 0x3063, 0x30B3, 0x61]"
  using normalize_idempotent [OF upperLatin_case_mapping, of "[0x306D, 0x3063, 0x30B3, 0x61]"]
        upperLatin_case_mapping
  by simp

section \<open>canPlaceWord against the specification\<close>

declare canPlaceWord_loop.simps [simp del]

lemma canPlaceWord_loop_step_h:
  "i < length chars \<Longrightarrow>
   canPlaceWord_loop grid chars row col True i h =
     (if cellFits grid chars row col True i
      then canPlaceWord_loop grid chars row col True (i + 1)
             (h \<or> grid ! runRow row True i ! runCol col True i \<noteq> None)
      else None)"
  by (subst canPlaceWord_loop.simps)
     (cases "grid ! row ! (col + i)"; auto simp add: Let_def cellFits_def runRow_def runCol_def)

lemma canPlaceWord_loop_step_v:
  "i < length chars \<Longrightarrow>
   canPlaceWord_loop grid chars row col False i h =
     (if cellFits grid chars row col False i
      then canPlaceWord_loop grid chars row col False (i + 1)
             (h \<or> grid ! runRow row False i ! runCol col False i \<noteq> None)
      else None)"
  by (subst canPlaceWord_loop.simps)
     (cases "grid ! (row + i) ! col"; auto simp add: Let_def cellFits_def runRow_def runCol_def)

lemma canPlaceWord_loop_step:
  "i < length chars \<Longrightarrow>
   canPlaceWord_loop grid chars row col horizontal i h =
     (if cellFits grid chars row col horizontal i
      then canPlaceWord_loop grid chars row col horizontal (i + 1)
             (h \<or> grid ! runRow row horizontal i ! runCol col horizontal i \<noteq> None)
      else None)"
  by (cases horizontal) (simp_all only: canPlaceWord_loop_step_h canPlaceWord_loop_step_v)

lemma canPlaceWord_loop_end:
  "\<not> i < length chars \<Longrightarrow> canPlaceWord_loop grid chars row col horizontal i h = Some h"
  by (subst canPlaceWord_loop.simps) simp

lemma canPlaceWord_loop_char:
  "canPlaceWord_loop grid chars row col horizontal i h =
     (if \<forall>j. i \<le> j \<and> j < length chars \<longrightarrow> cellFits grid chars row col horizontal j
      then Some (h \<or> (\<exists>j. i \<le> j \<and> j < length chars
                        \<and> grid ! runRow row horizontal j ! runCol col horizontal j \<noteq> None))
      else None)"
proof (induction "length chars - i" arbitrary: i h)
  case 0
  then have "\<not> i < length chars" by simp
  then show ?case
    by (auto simp: canPlaceWord_loop_end)
next
  case (Suc k)
  then have lt: "i < length chars" and k: "k = length chars - (i + 1)" by simp_all
  have allS: "\<And>P. (\<forall>j. i \<le> j \<and> j < length chars \<longrightarrow> P j)
                  \<longleftrightarrow> P i \<and> (\<forall>j. i + 1 \<le> j \<and> j < length chars \<longrightarrow> P j)"
  proof -
    fix P :: "nat \<Rightarrow> bool"
    have "\<And>j. i \<le> j \<longleftrightarrow> j = i \<or> i + 1 \<le> j" by arith
    then show "(\<forall>j. i \<le> j \<and> j < length chars \<longrightarrow> P j)
                  \<longleftrightarrow> P i \<and> (\<forall>j. i + 1 \<le> j \<and> j < length chars \<longrightarrow> P j)"
      using lt by auto
  qed
  have exS: "\<And>P. (\<exists>j. i \<le> j \<and> j < length chars \<and> P j)
                  \<longleftrightarrow> P i \<or> (\<exists>j. i + 1 \<le> j \<and> j < length chars \<and> P j)"
  proof -
    fix P :: "nat \<Rightarrow> bool"
    have "\<And>j. i \<le> j \<longleftrightarrow> j = i \<or> i + 1 \<le> j" by arith
    then show "(\<exists>j. i \<le> j \<and> j < length chars \<and> P j)
                  \<longleftrightarrow> P i \<or> (\<exists>j. i + 1 \<le> j \<and> j < length chars \<and> P j)"
      using lt by auto
  qed
  show ?case
    unfolding canPlaceWord_loop_step [OF lt] Suc.hyps(1) [OF k]
    by (subst allS, subst exS) auto
qed

lemma canPlaceWord_char:
  "canPlaceWord grid word row col horizontal req \<longleftrightarrow>
     endsFree grid (length (spread word)) row col horizontal
     \<and> (\<forall>i < length (spread word). cellFits grid (spread word) row col horizontal i)
     \<and> (req \<longrightarrow> (\<exists>i < length (spread word).
            grid ! runRow row horizontal i ! runCol col horizontal i \<noteq> None))"
  unfolding canPlaceWord_def endsFree_def
  by (auto simp: Let_def canPlaceWord_loop_char)

lemma inside_nat: "inside grid (int r) (int c) \<longleftrightarrow> r < length grid \<and> c < length grid"
  by (simp add: inside_def)

lemma cellAt_nat: "cellAt grid (int r) (int c) = grid ! r ! c"
  by (simp add: cellAt_def)

lemma blocked_nat:
  "blockedIfInside grid (int r) (int c) \<longleftrightarrow> (r < length grid \<and> c < length grid \<longrightarrow> grid ! r ! c = None)"
  by (simp add: blockedIfInside_def inside_nat cellAt_nat)

lemma blocked_above:
  "blockedIfInside grid (int r - 1) (int c) \<longleftrightarrow>
     (0 < r \<and> r - 1 < length grid \<and> c < length grid \<longrightarrow> grid ! (r - 1) ! c = None)"
proof (cases r)
  case 0
  then show ?thesis by (simp add: blockedIfInside_def inside_def)
next
  case (Suc k)
  then have "int r - 1 = int k" by simp
  then show ?thesis using Suc by (simp add: blocked_nat)
qed

lemma blocked_left:
  "blockedIfInside grid (int r) (int c - 1) \<longleftrightarrow>
     (0 < c \<and> r < length grid \<and> c - 1 < length grid \<longrightarrow> grid ! r ! (c - 1) = None)"
proof (cases c)
  case 0
  then show ?thesis by (simp add: blockedIfInside_def inside_def)
next
  case (Suc k)
  then have "int c - 1 = int k" by simp
  then show ?thesis using Suc by (simp add: blocked_nat)
qed

lemma run_inside_iff:
  "a < n \<Longrightarrow> (\<forall>i < len. a + i < (n::nat)) \<longleftrightarrow> a + len \<le> n"
proof (cases len)
  case 0
  assume "a < n" then show ?thesis using 0 by simp
next
  case (Suc k)
  assume "a < n"
  show ?thesis
  proof
    assume "\<forall>i < len. a + i < n"
    then have "a + k < n" using Suc by simp
    then show "a + len \<le> n" using Suc by simp
  next
    assume "a + len \<le> n"
    then show "\<forall>i < len. a + i < n" by auto
  qed
qed

lemma blocked_below:
  "blockedIfInside grid (int r + 1) (int c) \<longleftrightarrow>
     (r + 1 < length grid \<and> c < length grid \<longrightarrow> grid ! (r + 1) ! c = None)"
proof -
  have "int r + 1 = int (r + 1)" by simp
  then show ?thesis unfolding blocked_nat [symmetric] by metis
qed

lemma blocked_right:
  "blockedIfInside grid (int r) (int c + 1) \<longleftrightarrow>
     (r < length grid \<and> c + 1 < length grid \<longrightarrow> grid ! r ! (c + 1) = None)"
proof -
  have "int c + 1 = int (c + 1)" by simp
  then show ?thesis unfolding blocked_nat [symmetric] by metis
qed

lemma cellFits_letter:
  "cellFits grid chars row col horizontal i \<Longrightarrow>
   grid ! runRow row horizontal i ! runCol col horizontal i \<noteq> None \<longleftrightarrow>
   grid ! runRow row horizontal i ! runCol col horizontal i = Some (chars ! i)"
  unfolding cellFits_def Let_def by (auto split: option.splits)

lemma can_place_horizontal:
  assumes "row < length grid" "col < length grid"
  shows "can_place grid word (int row) (int col) True req \<longleftrightarrow>
     endsFree grid (length (spread word)) row col True
     \<and> (\<forall>i < length (spread word). cellFits grid (spread word) row col True i)
     \<and> (req \<longrightarrow> (\<exists>i < length (spread word). grid ! runRow row True i ! runCol col True i \<noteq> None))"
proof -
  let ?chars = "spread word" and ?n = "length grid"
  let ?len = "length ?chars"
  have A: "can_place grid word (int row) (int col) True req \<longleftrightarrow>
       (\<forall>i < ?len. inside grid (int row) (int (col + i)))
       \<and> blockedIfInside grid (int row) (int col - 1)
       \<and> blockedIfInside grid (int row) (int (col + ?len))
       \<and> (\<forall>i < ?len. cellAt grid (int row) (int (col + i)) = Some (?chars ! i)
              \<or> (cellAt grid (int row) (int (col + i)) = None
                  \<and> blockedIfInside grid (int row - 1) (int (col + i))
                  \<and> blockedIfInside grid (int row + 1) (int (col + i))))
       \<and> (req \<longrightarrow> (\<exists>i < ?len. cellAt grid (int row) (int (col + i)) = Some (?chars ! i)))"
    unfolding can_place_def Let_def by simp
  have B: "(\<forall>i < ?len. inside grid (int row) (int (col + i))) \<longleftrightarrow> col + ?len \<le> ?n"
    unfolding inside_nat using assms run_inside_iff [of col ?n ?len] by simp
  have E: "blockedIfInside grid (int row) (int col - 1)
           \<and> blockedIfInside grid (int row) (int (col + ?len))
           \<longleftrightarrow> \<not> (col > 0 \<and> grid ! row ! (col - 1) \<noteq> None)
               \<and> \<not> (col + ?len < ?n \<and> grid ! row ! (col + ?len) \<noteq> None)"
    unfolding blocked_nat blocked_left using assms by auto
  have C: "cellAt grid (int row) (int (col + i)) = Some (?chars ! i)
              \<or> (cellAt grid (int row) (int (col + i)) = None
                  \<and> blockedIfInside grid (int row - 1) (int (col + i))
                  \<and> blockedIfInside grid (int row + 1) (int (col + i)))
           \<longleftrightarrow> cellFits grid ?chars row col True i"
    if "col + ?len \<le> ?n" "i < ?len" for i
  proof -
    have "col + i < ?n" using that by simp
    then show ?thesis
      unfolding cellAt_nat blocked_above blocked_below cellFits_def runRow_def runCol_def Let_def
      using assms by (cases "grid ! row ! (col + i)") auto
  qed
  have D: "(\<exists>i < ?len. cellAt grid (int row) (int (col + i)) = Some (?chars ! i))
           \<longleftrightarrow> (\<exists>i < ?len. grid ! runRow row True i ! runCol col True i \<noteq> None)"
    if "\<forall>i < ?len. cellFits grid ?chars row col True i"
    using that cellFits_letter [of grid ?chars row col True]
    unfolding cellAt_nat runRow_def runCol_def if_True if_False by blast
  have F: "endsFree grid ?len row col True \<longleftrightarrow>
           col + ?len \<le> ?n \<and> \<not> (col > 0 \<and> grid ! row ! (col - 1) \<noteq> None)
               \<and> \<not> (col + ?len < ?n \<and> grid ! row ! (col + ?len) \<noteq> None)"
    by (simp add: endsFree_def)
  show ?thesis
  proof (cases "col + ?len \<le> ?n")
    case False
    then show ?thesis unfolding A B F by blast
  next
    case True
    have C': "(\<forall>i < ?len. cellAt grid (int row) (int (col + i)) = Some (?chars ! i)
              \<or> (cellAt grid (int row) (int (col + i)) = None
                  \<and> blockedIfInside grid (int row - 1) (int (col + i))
                  \<and> blockedIfInside grid (int row + 1) (int (col + i))))
          \<longleftrightarrow> (\<forall>i < ?len. cellFits grid ?chars row col True i)"
      using C [OF True] by blast
    show ?thesis
      unfolding A B F C' using True D E by blast
  qed
qed

lemma can_place_vertical:
  assumes "row < length grid" "col < length grid"
  shows "can_place grid word (int row) (int col) False req \<longleftrightarrow>
     endsFree grid (length (spread word)) row col False
     \<and> (\<forall>i < length (spread word). cellFits grid (spread word) row col False i)
     \<and> (req \<longrightarrow> (\<exists>i < length (spread word). grid ! runRow row False i ! runCol col False i \<noteq> None))"
proof -
  let ?chars = "spread word" and ?n = "length grid"
  let ?len = "length ?chars"
  have A: "can_place grid word (int row) (int col) False req \<longleftrightarrow>
       (\<forall>i < ?len. inside grid (int (row + i)) (int col))
       \<and> blockedIfInside grid (int row - 1) (int col)
       \<and> blockedIfInside grid (int (row + ?len)) (int col)
       \<and> (\<forall>i < ?len. cellAt grid (int (row + i)) (int col) = Some (?chars ! i)
              \<or> (cellAt grid (int (row + i)) (int col) = None
                  \<and> blockedIfInside grid (int (row + i)) (int col - 1)
                  \<and> blockedIfInside grid (int (row + i)) (int col + 1)))
       \<and> (req \<longrightarrow> (\<exists>i < ?len. cellAt grid (int (row + i)) (int col) = Some (?chars ! i)))"
    unfolding can_place_def Let_def by simp
  have B: "(\<forall>i < ?len. inside grid (int (row + i)) (int col)) \<longleftrightarrow> row + ?len \<le> ?n"
    unfolding inside_nat using assms run_inside_iff [of row ?n ?len] by simp
  have E: "blockedIfInside grid (int row - 1) (int col)
           \<and> blockedIfInside grid (int (row + ?len)) (int col)
           \<longleftrightarrow> \<not> (row > 0 \<and> grid ! (row - 1) ! col \<noteq> None)
               \<and> \<not> (row + ?len < ?n \<and> grid ! (row + ?len) ! col \<noteq> None)"
    unfolding blocked_nat blocked_above using assms by auto
  have C: "cellAt grid (int (row + i)) (int col) = Some (?chars ! i)
              \<or> (cellAt grid (int (row + i)) (int col) = None
                  \<and> blockedIfInside grid (int (row + i)) (int col - 1)
                  \<and> blockedIfInside grid (int (row + i)) (int col + 1))
           \<longleftrightarrow> cellFits grid ?chars row col False i"
    if "row + ?len \<le> ?n" "i < ?len" for i
  proof -
    have "row + i < ?n" using that by simp
    then show ?thesis
      unfolding cellAt_nat blocked_left blocked_right cellFits_def runRow_def runCol_def Let_def
      using assms by (cases "grid ! (row + i) ! col") auto
  qed
  have D: "(\<exists>i < ?len. cellAt grid (int (row + i)) (int col) = Some (?chars ! i))
           \<longleftrightarrow> (\<exists>i < ?len. grid ! runRow row False i ! runCol col False i \<noteq> None)"
    if "\<forall>i < ?len. cellFits grid ?chars row col False i"
    using that cellFits_letter [of grid ?chars row col False]
    unfolding cellAt_nat runRow_def runCol_def if_True if_False by blast
  have F: "endsFree grid ?len row col False \<longleftrightarrow>
           row + ?len \<le> ?n \<and> \<not> (row > 0 \<and> grid ! (row - 1) ! col \<noteq> None)
               \<and> \<not> (row + ?len < ?n \<and> grid ! (row + ?len) ! col \<noteq> None)"
    by (simp add: endsFree_def)
  show ?thesis
  proof (cases "row + ?len \<le> ?n")
    case False
    then show ?thesis unfolding A B F by blast
  next
    case True
    have C': "(\<forall>i < ?len. cellAt grid (int (row + i)) (int col) = Some (?chars ! i)
              \<or> (cellAt grid (int (row + i)) (int col) = None
                  \<and> blockedIfInside grid (int (row + i)) (int col - 1)
                  \<and> blockedIfInside grid (int (row + i)) (int col + 1)))
          \<longleftrightarrow> (\<forall>i < ?len. cellFits grid ?chars row col False i)"
      using C [OF True] by blast
    show ?thesis
      unfolding A B F C' using True D E by blast
  qed
qed

text \<open>
  C2: for every grid, word, orientation, flag and start cell with row and column in bounds,
  \<open>canPlaceWord\<close> returns true if and only if the run lies in bounds, the cells before and
  after the run are blocked when in bounds, every cell of the run holds the word's grapheme
  at that index or is blocked with both perpendicular neighbours blocked when in bounds, and,
  when an intersection is required, at least one cell of the run is an intersection.
\<close>

theorem canPlaceWord_iff_can_place:
  assumes "row < length grid" and "col < length grid"
  shows "canPlaceWord grid word row col horizontal requireIntersection
         \<longleftrightarrow> can_place grid word (int row) (int col) horizontal requireIntersection"
  using assms can_place_horizontal can_place_vertical canPlaceWord_char
  by (cases horizontal) simp_all


lemma neko_grid_value:
  "neko_grid = [[None, None, None, None, None], [None, None, None, None, None],
                [None, Some [0x30CD], Some [0x30B3], None, None],
                [None, None, None, None, None], [None, None, None, None, None]]"
  by code_simp

theorem canPlaceWord_iff_can_place_witness:
  "(2::nat) < length neko_grid \<and> (2::nat) < length neko_grid
   \<and> can_place neko_grid [0x30B3, 0x30C8] 2 2 False True
   \<and> \<not> can_place neko_grid [0x30EA, 0x30B9] 3 1 True False"
proof -
  have len: "(2::nat) < length neko_grid" "(3::nat) < length neko_grid" "(1::nat) < length neko_grid"
    by (simp_all add: neko_grid_value)
  have yes: "canPlaceWord neko_grid [0x30B3, 0x30C8] 2 2 False True"
    unfolding neko_grid_value by code_simp
  have no: "\<not> canPlaceWord neko_grid [0x30EA, 0x30B9] 3 1 True False"
    unfolding neko_grid_value by code_simp
  show ?thesis
    using canPlaceWord_iff_can_place [OF len(1) len(1), of "[0x30B3, 0x30C8]" False True]
          canPlaceWord_iff_can_place [OF len(2) len(3), of "[0x30EA, 0x30B9]" True False]
          yes no len
    by simp
qed

section \<open>Hints\<close>

lemma spread_underscores: "spread (replicate k 0xFF3F) = replicate k [0xFF3F]"
proof (induction k rule: less_induct)
  case (less k)
  show ?case
  proof (cases k)
    case 0
    then show ?thesis by simp
  next
    case (Suc j)
    show ?thesis
    proof (cases j)
      case 0
      then show ?thesis using Suc by simp
    next
      case (Suc i)
      have "spread (replicate (Suc i) 0xFF3F) = replicate (Suc i) [0xFF3F]"
        using less [of "Suc i"] \<open>k = Suc j\<close> Suc by simp
      then show ?thesis
        using \<open>k = Suc j\<close> Suc by (simp add: is_high_surrogate_def)
    qed
  qed
qed

lemma spread_unit_underscores:
  "spread (u # replicate k 0xFF3F) = [u] # replicate k [0xFF3F]"
  using spread_underscores [of k]
  by (cases k) (simp_all add: is_low_surrogate_def)

lemma spread_nonempty: "s \<noteq> [] \<Longrightarrow> spread s \<noteq> []"
  by (induction s rule: spread.induct) auto

lemma spread_hd_underscores:
  "s \<noteq> [] \<Longrightarrow> spread (hd (spread s) @ replicate k 0xFF3F) = hd (spread s) # replicate k [0xFF3F]"
proof (cases s rule: spread.cases)
  case 1
  assume "s \<noteq> []" with 1 show ?thesis by simp
next
  case (2 u)
  then show ?thesis using spread_unit_underscores by simp
next
  case (3 u v us)
  then show ?thesis
    using spread_unit_underscores [of u k] spread_underscores [of k]
    by (auto)
qed

lemma concat_replicate_single: "concat (replicate k [x]) = replicate k x"
  by (induction k) simp_all

text \<open>
  C7 (hint contract): for every stored puzzle and every key "number-orientation" present in
  its answer table, \<open>getHint\<close> returns the first grapheme of the answer followed by
  length - 1 full-width underscores (U+FF3F), with \<open>revealed = 1\<close> and \<open>total\<close> the number
  of graphemes of the answer; when the key is absent it fails with \<open>ClueNotFound\<close>.
  A stored answer is never empty (\<open>!answer\<close> would treat the empty string as a missing
  key); the answers that \<open>generateCrossword\<close> returns have at least two graphemes.
\<close>

theorem getHint_contract:
  assumes "pz_answers pz = Some tbl"
  shows "(tbl (clueKey clueNumber direction) = Some stored \<and> stored \<noteq> [] \<longrightarrow>
           (\<exists>h. getHint (Some pz) clueNumber direction
                   = Inr \<lparr>hint = h, revealed = 1, total = length (spread stored)\<rparr>
                \<and> h = hd (spread stored) @ replicate (length (spread stored) - 1) 0xFF3F
                \<and> spread h = hd (spread stored) # replicate (length (spread stored) - 1) [0xFF3F]))
       \<and> (tbl (clueKey clueNumber direction) = None \<longrightarrow>
            getHint (Some pz) clueNumber direction = Inl ClueNotFound)"
  using assms spread_hd_underscores [of stored "length (spread stored) - 1"]
  by (simp add: getHint_def Let_def concat_replicate_single)

lemma key4: "clueKey 4 (orientationName Across) = [0x34, 0x2D, 0x61, 0x63, 0x72, 0x6F, 0x73, 0x73]"
  by (simp add: clueKey_def orientationName_def)
lemma key5: "clueKey 5 (orientationName Across) = [0x35, 0x2D, 0x61, 0x63, 0x72, 0x6F, 0x73, 0x73]"
  by (simp add: clueKey_def orientationName_def)

theorem getHint_contract_witness:
  "getHint (Some ukraine_puzzle) 4 (orientationName Across)
     = Inr \<lparr>hint = [0x30A6, 0xFF3F, 0xFF3F, 0xFF3F, 0xFF3F], revealed = 1, total = 5\<rparr>
   \<and> getHint (Some ukraine_puzzle) 5 (orientationName Across) = Inl ClueNotFound"
proof -
  let ?tbl = "Map.empty(clueKey 4 (orientationName Across) \<mapsto> [0x30A6, 0x30AF, 0x30E9, 0x30A4, 0x30CA :: code_unit])"
  have a: "pz_answers ukraine_puzzle = Some ?tbl" by (simp add: ukraine_puzzle_def)
  have s: "spread [0x30A6, 0x30AF, 0x30E9, 0x30A4, 0x30CA] = [[0x30A6], [0x30AF], [0x30E9], [0x30A4], [0x30CA]]"
    by (simp add: is_high_surrogate_def)
  have r: "replicate 4 (0xFF3F :: code_unit) = [0xFF3F, 0xFF3F, 0xFF3F, 0xFF3F]"
    by (simp add: numeral_eq_Suc)
  show ?thesis
    using getHint_contract [OF a, of 4 "orientationName Across" "[0x30A6, 0x30AF, 0x30E9, 0x30A4, 0x30CA]"]
          getHint_contract [OF a, of 5 "orientationName Across" "[]"]
    by (simp add: r key4 key5 is_high_surrogate_def is_low_surrogate_def)
qed

section \<open>Placing a word\<close>

lemma square_nth: "square n grid \<Longrightarrow> r < n \<Longrightarrow> length (grid ! r) = n"
  by (simp add: square_def)

lemma square_update:
  "square n grid \<Longrightarrow> square n (grid[r := (grid ! r)[c := v]])"
proof (cases "r < length grid")
  case False
  assume "square n grid"
  moreover have "grid[r := (grid ! r)[c := v]] = grid"
    using False by (intro list_update_beyond) simp
  ultimately show ?thesis by simp
next
  case True
  assume sq: "square n grid"
  have "set (grid[r := (grid ! r)[c := v]]) \<subseteq> insert ((grid ! r)[c := v]) (set grid)"
    by (rule set_update_subset_insert)
  moreover have "length ((grid ! r)[c := v]) = n"
    using sq True by (simp add: square_def)
  ultimately show ?thesis
    using sq unfolding square_def by auto
qed

lemma update_cell:
  "square n grid \<Longrightarrow> r < n \<Longrightarrow> c < n \<Longrightarrow> r' < n \<Longrightarrow> c' < n \<Longrightarrow>
   grid[r := (grid ! r)[c := v]] ! r' ! c' = (if r' = r \<and> c' = c then v else grid ! r' ! c')"
  by (auto simp: square_def nth_list_update)

lemma placeWord_steps_h:
  assumes "square n grid" "row < n" "col + k \<le> n"
  shows "square n (foldl (\<lambda>g i. g[row := (g ! row)[col + i := Some (chars ! i)]]) grid [0..<k])
       \<and> (\<forall>r < n. \<forall>c < n.
            foldl (\<lambda>g i. g[row := (g ! row)[col + i := Some (chars ! i)]]) grid [0..<k] ! r ! c
              = (if r = row \<and> col \<le> c \<and> c < col + k then Some (chars ! (c - col)) else grid ! r ! c))"
  using assms(3)
proof (induction k)
  case 0
  then show ?case using assms by auto
next
  case (Suc k)
  let ?g = "foldl (\<lambda>g i. g[row := (g ! row)[col + i := Some (chars ! i)]]) grid [0..<k]"
  have sq: "square n ?g" and cells: "\<forall>r < n. \<forall>c < n.
        ?g ! r ! c = (if r = row \<and> col \<le> c \<and> c < col + k then Some (chars ! (c - col)) else grid ! r ! c)"
    using Suc by simp_all
  have step: "foldl (\<lambda>g i. g[row := (g ! row)[col + i := Some (chars ! i)]]) grid [0..<Suc k]
        = ?g[row := (?g ! row)[col + k := Some (chars ! k)]]"
    by simp
  have ck: "col + k < n" using Suc.prems by simp
  show ?case
    unfolding step
  proof (intro conjI allI impI)
    show "square n (?g[row := (?g ! row)[col + k := Some (chars ! k)]])"
      using sq by (rule square_update)
  next
    fix r c assume "r < n" "c < n"
    then show "?g[row := (?g ! row)[col + k := Some (chars ! k)]] ! r ! c
        = (if r = row \<and> col \<le> c \<and> c < col + Suc k then Some (chars ! (c - col)) else grid ! r ! c)"
      using update_cell [OF sq assms(2) ck \<open>r < n\<close> \<open>c < n\<close>] cells
      by (auto simp: less_Suc_eq)
  qed
qed

lemma placeWord_steps_v:
  assumes "square n grid" "col < n" "row + k \<le> n"
  shows "square n (foldl (\<lambda>g i. g[row + i := (g ! (row + i))[col := Some (chars ! i)]]) grid [0..<k])
       \<and> (\<forall>r < n. \<forall>c < n.
            foldl (\<lambda>g i. g[row + i := (g ! (row + i))[col := Some (chars ! i)]]) grid [0..<k] ! r ! c
              = (if c = col \<and> row \<le> r \<and> r < row + k then Some (chars ! (r - row)) else grid ! r ! c))"
  using assms(3)
proof (induction k)
  case 0
  then show ?case using assms by auto
next
  case (Suc k)
  let ?g = "foldl (\<lambda>g i. g[row + i := (g ! (row + i))[col := Some (chars ! i)]]) grid [0..<k]"
  have sq: "square n ?g" and cells: "\<forall>r < n. \<forall>c < n.
        ?g ! r ! c = (if c = col \<and> row \<le> r \<and> r < row + k then Some (chars ! (r - row)) else grid ! r ! c)"
    using Suc by simp_all
  have step: "foldl (\<lambda>g i. g[row + i := (g ! (row + i))[col := Some (chars ! i)]]) grid [0..<Suc k]
        = ?g[row + k := (?g ! (row + k))[col := Some (chars ! k)]]"
    by simp
  have rk: "row + k < n" using Suc.prems by simp
  show ?case
    unfolding step
  proof (intro conjI allI impI)
    show "square n (?g[row + k := (?g ! (row + k))[col := Some (chars ! k)]])"
      using sq by (rule square_update)
  next
    fix r c assume "r < n" "c < n"
    then show "?g[row + k := (?g ! (row + k))[col := Some (chars ! k)]] ! r ! c
        = (if c = col \<and> row \<le> r \<and> r < row + Suc k then Some (chars ! (r - row)) else grid ! r ! c)"
      using update_cell [OF sq rk assms(2) \<open>r < n\<close> \<open>c < n\<close>] cells
      by (auto simp: less_Suc_eq)
  qed
qed

lemma placeWord_cells:
  assumes "square n grid"
    and "if horizontal then row < n \<and> col + length (spread word) \<le> n
         else col < n \<and> row + length (spread word) \<le> n"
  shows "square n (placeWord grid word row col horizontal)"
    and "r < n \<Longrightarrow> c < n \<Longrightarrow>
         placeWord grid word row col horizontal ! r ! c
           = (if inRun row col horizontal (length (spread word)) r c
              then Some (spread word ! runIndex row col horizontal r c) else grid ! r ! c)"
proof -
  show "square n (placeWord grid word row col horizontal)"
  proof (cases horizontal)
    case True
    then show ?thesis
      using assms placeWord_steps_h [of n grid row col "length (spread word)" "spread word"]
      by (simp add: placeWord_def Let_def)
  next
    case False
    then show ?thesis
      using assms placeWord_steps_v [of n grid col row "length (spread word)" "spread word"]
      by (simp add: placeWord_def Let_def)
  qed
  show "placeWord grid word row col horizontal ! r ! c
           = (if inRun row col horizontal (length (spread word)) r c
              then Some (spread word ! runIndex row col horizontal r c) else grid ! r ! c)"
    if "r < n" "c < n"
  proof (cases horizontal)
    case True
    then show ?thesis
      using assms that placeWord_steps_h [of n grid row col "length (spread word)" "spread word"]
      by (simp add: placeWord_def Let_def inRun_def runIndex_def)
  next
    case False
    then show ?thesis
      using assms that placeWord_steps_v [of n grid col row "length (spread word)" "spread word"]
      by (simp add: placeWord_def Let_def inRun_def runIndex_def)
  qed
qed

lemma covers_inside: "wordFits n p \<Longrightarrow> covers p r c \<Longrightarrow> r < n \<and> c < n"
  unfolding wordFits_def covers_def inRun_def by (auto split: if_splits)

lemma canPlace_facts_h:
  assumes "canPlaceWord g word row col True req"
  shows "col + length (spread word) \<le> length g"
    and "col > 0 \<Longrightarrow> g ! row ! (col - 1) = None"
    and "col + length (spread word) < length g \<Longrightarrow> g ! row ! (col + length (spread word)) = None"
    and "col \<le> c \<Longrightarrow> c < col + length (spread word) \<Longrightarrow>
           g ! row ! c = None \<or> g ! row ! c = Some (spread word ! (c - col))"
    and "col \<le> c \<Longrightarrow> c < col + length (spread word) \<Longrightarrow> g ! row ! c = None \<Longrightarrow>
           row > 0 \<Longrightarrow> g ! (row - 1) ! c = None"
    and "col \<le> c \<Longrightarrow> c < col + length (spread word) \<Longrightarrow> g ! row ! c = None \<Longrightarrow>
           row + 1 < length g \<Longrightarrow> g ! (row + 1) ! c = None"
proof -
  have ends: "endsFree g (length (spread word)) row col True"
    and fits: "\<And>i. i < length (spread word) \<Longrightarrow> cellFits g (spread word) row col True i"
    using assms unfolding canPlaceWord_char by simp_all
  show "col + length (spread word) \<le> length g"
    and "col > 0 \<Longrightarrow> g ! row ! (col - 1) = None"
    and "col + length (spread word) < length g \<Longrightarrow> g ! row ! (col + length (spread word)) = None"
    using ends unfolding endsFree_def by simp_all
  have cell: "case g ! row ! c of
                Some existing \<Rightarrow> existing = spread word ! (c - col)
              | None \<Rightarrow> \<not> (row > 0 \<and> g ! (row - 1) ! c \<noteq> None)
                        \<and> \<not> (row + 1 < length g \<and> g ! (row + 1) ! c \<noteq> None)"
    if "col \<le> c" "c < col + length (spread word)" for c
  proof -
    have "c - col < length (spread word)" and "col + (c - col) = c" using that by simp_all
    then show ?thesis
      using fits [of "c - col"] unfolding cellFits_def runRow_def runCol_def Let_def
      by (cases "g ! row ! c") simp_all
  qed
  show "col \<le> c \<Longrightarrow> c < col + length (spread word) \<Longrightarrow>
           g ! row ! c = None \<or> g ! row ! c = Some (spread word ! (c - col))"
    using cell [of c] by (cases "g ! row ! c") simp_all
  show "col \<le> c \<Longrightarrow> c < col + length (spread word) \<Longrightarrow> g ! row ! c = None \<Longrightarrow>
           row > 0 \<Longrightarrow> g ! (row - 1) ! c = None"
    using cell [of c] by simp
  show "col \<le> c \<Longrightarrow> c < col + length (spread word) \<Longrightarrow> g ! row ! c = None \<Longrightarrow>
           row + 1 < length g \<Longrightarrow> g ! (row + 1) ! c = None"
    using cell [of c] by simp
qed

lemma canPlace_facts_v:
  assumes "canPlaceWord g word row col False req"
  shows "row + length (spread word) \<le> length g"
    and "row > 0 \<Longrightarrow> g ! (row - 1) ! col = None"
    and "row + length (spread word) < length g \<Longrightarrow> g ! (row + length (spread word)) ! col = None"
    and "row \<le> r \<Longrightarrow> r < row + length (spread word) \<Longrightarrow>
           g ! r ! col = None \<or> g ! r ! col = Some (spread word ! (r - row))"
    and "row \<le> r \<Longrightarrow> r < row + length (spread word) \<Longrightarrow> g ! r ! col = None \<Longrightarrow>
           col > 0 \<Longrightarrow> g ! r ! (col - 1) = None"
    and "row \<le> r \<Longrightarrow> r < row + length (spread word) \<Longrightarrow> g ! r ! col = None \<Longrightarrow>
           col + 1 < length g \<Longrightarrow> g ! r ! (col + 1) = None"
proof -
  have ends: "endsFree g (length (spread word)) row col False"
    and fits: "\<And>i. i < length (spread word) \<Longrightarrow> cellFits g (spread word) row col False i"
    using assms unfolding canPlaceWord_char by simp_all
  show "row + length (spread word) \<le> length g"
    and "row > 0 \<Longrightarrow> g ! (row - 1) ! col = None"
    and "row + length (spread word) < length g \<Longrightarrow> g ! (row + length (spread word)) ! col = None"
    using ends unfolding endsFree_def by simp_all
  have cell: "case g ! r ! col of
                Some existing \<Rightarrow> existing = spread word ! (r - row)
              | None \<Rightarrow> \<not> (col > 0 \<and> g ! r ! (col - 1) \<noteq> None)
                        \<and> \<not> (col + 1 < length g \<and> g ! r ! (col + 1) \<noteq> None)"
    if "row \<le> r" "r < row + length (spread word)" for r
  proof -
    have "r - row < length (spread word)" and "row + (r - row) = r" using that by simp_all
    then show ?thesis
      using fits [of "r - row"] unfolding cellFits_def runRow_def runCol_def Let_def
      by (cases "g ! r ! col") simp_all
  qed
  show "row \<le> r \<Longrightarrow> r < row + length (spread word) \<Longrightarrow>
           g ! r ! col = None \<or> g ! r ! col = Some (spread word ! (r - row))"
    using cell [of r] by (cases "g ! r ! col") simp_all
  show "row \<le> r \<Longrightarrow> r < row + length (spread word) \<Longrightarrow> g ! r ! col = None \<Longrightarrow>
           col > 0 \<Longrightarrow> g ! r ! (col - 1) = None"
    using cell [of r] by simp
  show "row \<le> r \<Longrightarrow> r < row + length (spread word) \<Longrightarrow> g ! r ! col = None \<Longrightarrow>
           col + 1 < length g \<Longrightarrow> g ! r ! (col + 1) = None"
    using cell [of r] by simp
qed

lemma place_preserves_h:
  assumes inv: "crossword_inv n (g, placed)"
    and row: "row < n"
    and can: "canPlaceWord g (answer w) row col True req"
  shows "crossword_inv n
           (placeWord g (answer w) row col True,
            placed @ [\<lparr>p_word = w, p_row = row, p_col = col, p_horizontal = True\<rparr>])"
proof -
  let ?chars = "spread (answer w)"
  let ?L = "length ?chars"
  let ?new = "\<lparr>p_word = w, p_row = row, p_col = col, p_horizontal = True\<rparr>"
  let ?g' = "placeWord g (answer w) row col True"
  have sq: "square n g" and len: "length g = n"
    using inv by (simp_all add: crossword_inv_def square_def)
  have old_words: "\<And>p. p \<in> set placed \<Longrightarrow> wordOnGrid n g p"
    and old_cov: "lettersCovered n g placed"
    and old_across: "adjacentAcross n g placed"
    and old_down: "adjacentDown n g placed"
    using inv by (simp_all add: crossword_inv_def)
  note facts = canPlace_facts_h [OF can, unfolded len]
  have fit: "col + ?L \<le> n" by (rule facts(1))
  have cov_new: "covers ?new r c \<longleftrightarrow> r = row \<and> col \<le> c \<and> c < col + ?L" for r c
    by (simp add: covers_def inRun_def glen_def)
  have letter_new: "letterOf ?new r c = ?chars ! (c - col)" for r c
    by (simp add: letterOf_def runIndex_def)
  have sq': "square n ?g'"
    using placeWord_cells(1) [OF sq, of True row col "answer w"] row fit by simp
  have cell': "?g' ! r ! c = (if covers ?new r c then Some (letterOf ?new r c) else g ! r ! c)"
    if "r < n" "c < n" for r c
    using placeWord_cells(2) [OF sq _ that, of True row col "answer w"] row fit
    by (simp add: cov_new letter_new inRun_def runIndex_def)
  have keep: "?g' ! r ! c = g ! r ! c" if "r < n" "c < n" "g ! r ! c \<noteq> None" for r c
  proof (cases "covers ?new r c")
    case True
    then have "g ! row ! c = None \<or> g ! row ! c = Some (?chars ! (c - col))" and "r = row"
      using facts(4) [of c] by (simp_all add: cov_new)
    then show ?thesis using that True cell' [OF that(1,2)] by (auto simp: letter_new)
  next
    case False
    then show ?thesis using cell' [OF that(1,2)] by simp
  qed
  have fresh: "g ! r ! c \<noteq> None \<or> covers ?new r c" if "r < n" "c < n" "?g' ! r ! c \<noteq> None" for r c
    using that cell' [OF that(1,2)] by (cases "covers ?new r c") simp_all
  have new_fits: "wordFits n ?new"
    using row fit by (simp add: wordFits_def glen_def)
  have words': "wordOnGrid n ?g' p" if "p \<in> set (placed @ [?new])" for p
  proof (cases "p = ?new")
    case True
    have "?g' ! r ! c = Some (letterOf ?new r c)" if "covers ?new r c" for r c
      using that cell' [of r c] covers_inside [OF new_fits that] by simp
    then show ?thesis using True new_fits by (simp add: wordOnGrid_def)
  next
    case False
    then have p: "wordOnGrid n g p" using that old_words by auto
    have "?g' ! r ! c = Some (letterOf p r c)" if "covers p r c" for r c
    proof -
      have in_g: "g ! r ! c = Some (letterOf p r c)" and "r < n \<and> c < n"
        using p that covers_inside [of n p r c] by (simp_all add: wordOnGrid_def)
      then show ?thesis using keep [of r c] by simp
    qed
    then show ?thesis using p by (simp add: wordOnGrid_def)
  qed
  have cov': "lettersCovered n ?g' (placed @ [?new])"
    unfolding lettersCovered_def
  proof (intro allI impI)
    fix r c assume "r < n" "c < n" "?g' ! r ! c \<noteq> None"
    then consider "covers ?new r c" | "g ! r ! c \<noteq> None" using fresh by blast
    then show "\<exists>p \<in> set (placed @ [?new]). covers p r c"
    proof cases
      case 1
      then show ?thesis by auto
    next
      case 2
      then obtain p where "p \<in> set placed" "covers p r c"
        using old_cov \<open>r < n\<close> \<open>c < n\<close> unfolding lettersCovered_def by blast
      then show ?thesis by auto
    qed
  qed
  have across': "adjacentAcross n ?g' (placed @ [?new])"
    unfolding adjacentAcross_def
  proof (intro allI impI)
    fix r c assume r: "r < n" and c: "c + 1 < n"
      and a: "?g' ! r ! c \<noteq> None" and b: "?g' ! r ! (c + 1) \<noteq> None"
    have c0: "c < n" using c by simp
    show "\<exists>p \<in> set (placed @ [?new]). p_horizontal p \<and> covers p r c \<and> covers p r (c + 1)"
    proof (cases "covers ?new r c")
      case True
      note left = True
      show ?thesis
      proof (cases "covers ?new r (c + 1)")
        case True
        then show ?thesis using left by auto
      next
        case False
        then have "c + 1 = col + ?L" and "r = row" using left by (auto simp: cov_new)
        then have "g ! r ! (c + 1) = None" using facts(3) c by simp
        then have "?g' ! r ! (c + 1) = None" using cell' [OF r c] False by simp
        then show ?thesis using b by simp
      qed
    next
      case False
      note left = False
      show ?thesis
      proof (cases "covers ?new r (c + 1)")
        case True
        then have "c = col - 1" and "col > 0" and "r = row" using left by (auto simp: cov_new)
        then have "g ! r ! c = None" using facts(2) by simp
        then have "?g' ! r ! c = None" using cell' [OF r c0] left by simp
        then show ?thesis using a by simp
      next
        case False
        then have "g ! r ! c \<noteq> None" "g ! r ! (c + 1) \<noteq> None"
          using a b left cell' [OF r c0] cell' [OF r c] by simp_all
        then obtain p where "p \<in> set placed" "p_horizontal p" "covers p r c" "covers p r (c + 1)"
          using old_across r c unfolding adjacentAcross_def by blast
        then show ?thesis by auto
      qed
    qed
  qed
  have down': "adjacentDown n ?g' (placed @ [?new])"
    unfolding adjacentDown_def
  proof (intro allI impI)
    fix c r assume c: "c < n" and r: "r + 1 < n"
      and a: "?g' ! r ! c \<noteq> None" and b: "?g' ! (r + 1) ! c \<noteq> None"
    have r0: "r < n" using r by simp
    have old_pair: "g ! r ! c \<noteq> None \<and> g ! (r + 1) ! c \<noteq> None"
    proof (cases "covers ?new r c")
      case True
      then have rr: "r = row" and cc: "col \<le> c" "c < col + ?L" by (simp_all add: cov_new)
      then have "\<not> covers ?new (r + 1) c" by (simp add: cov_new)
      then have below: "g ! (r + 1) ! c \<noteq> None" using b cell' [OF r c] by simp
      have "g ! r ! c \<noteq> None"
      proof
        assume "g ! r ! c = None"
        then have "g ! (row + 1) ! c = None" using facts(6) [OF cc] rr r by simp
        then show False using below rr by simp
      qed
      then show ?thesis using below by simp
    next
      case False
      then have above: "g ! r ! c \<noteq> None" using a cell' [OF r0 c] by simp
      show ?thesis
      proof (cases "covers ?new (r + 1) c")
        case True
        then have rr: "r + 1 = row" and cc: "col \<le> c" "c < col + ?L" by (simp_all add: cov_new)
        then have pos: "row > 0" and pred: "row - 1 = r" by simp_all
        have "g ! (r + 1) ! c \<noteq> None"
        proof
          assume "g ! (r + 1) ! c = None"
          then have "g ! (row - 1) ! c = None" using facts(5) [OF cc] rr pos by simp
          then show False using above pred by simp
        qed
        then show ?thesis using above by simp
      next
        case False
        then show ?thesis using above b cell' [OF r c] by simp
      qed
    qed
    then obtain p where "p \<in> set placed" "\<not> p_horizontal p" "covers p r c" "covers p (r + 1) c"
      using old_down r c unfolding adjacentDown_def by blast
    then show "\<exists>p \<in> set (placed @ [?new]). \<not> p_horizontal p \<and> covers p r c \<and> covers p (r + 1) c"
      by auto
  qed
  show ?thesis
    unfolding crossword_inv_def using sq' words' cov' across' down' by simp
qed


lemma place_preserves_v:
  assumes inv: "crossword_inv n (g, placed)"
    and col: "col < n"
    and can: "canPlaceWord g (answer w) row col False req"
  shows "crossword_inv n
           (placeWord g (answer w) row col False,
            placed @ [\<lparr>p_word = w, p_row = row, p_col = col, p_horizontal = False\<rparr>])"
proof -
  let ?chars = "spread (answer w)"
  let ?L = "length ?chars"
  let ?new = "\<lparr>p_word = w, p_row = row, p_col = col, p_horizontal = False\<rparr>"
  let ?g' = "placeWord g (answer w) row col False"
  have sq: "square n g" and len: "length g = n"
    using inv by (simp_all add: crossword_inv_def square_def)
  have old_words: "\<And>p. p \<in> set placed \<Longrightarrow> wordOnGrid n g p"
    and old_cov: "lettersCovered n g placed"
    and old_across: "adjacentAcross n g placed"
    and old_down: "adjacentDown n g placed"
    using inv by (simp_all add: crossword_inv_def)
  note facts = canPlace_facts_v [OF can, unfolded len]
  have fit: "row + ?L \<le> n" by (rule facts(1))
  have cov_new: "covers ?new r c \<longleftrightarrow> c = col \<and> row \<le> r \<and> r < row + ?L" for r c
    by (simp add: covers_def inRun_def glen_def)
  have letter_new: "letterOf ?new r c = ?chars ! (r - row)" for r c
    by (simp add: letterOf_def runIndex_def)
  have sq': "square n ?g'"
    using placeWord_cells(1) [OF sq, of False row col "answer w"] col fit by simp
  have cell': "?g' ! r ! c = (if covers ?new r c then Some (letterOf ?new r c) else g ! r ! c)"
    if "r < n" "c < n" for r c
    using placeWord_cells(2) [OF sq _ that, of False row col "answer w"] col fit
    by (simp add: cov_new letter_new inRun_def runIndex_def)
  have keep: "?g' ! r ! c = g ! r ! c" if "r < n" "c < n" "g ! r ! c \<noteq> None" for r c
  proof (cases "covers ?new r c")
    case True
    then have "g ! r ! col = None \<or> g ! r ! col = Some (?chars ! (r - row))" and "c = col"
      using facts(4) [of r] by (simp_all add: cov_new)
    then show ?thesis using that True cell' [OF that(1,2)] by (auto simp: letter_new)
  next
    case False
    then show ?thesis using cell' [OF that(1,2)] by simp
  qed
  have fresh: "g ! r ! c \<noteq> None \<or> covers ?new r c" if "r < n" "c < n" "?g' ! r ! c \<noteq> None" for r c
    using that cell' [OF that(1,2)] by (cases "covers ?new r c") simp_all
  have new_fits: "wordFits n ?new"
    using col fit by (simp add: wordFits_def glen_def)
  have words': "wordOnGrid n ?g' p" if "p \<in> set (placed @ [?new])" for p
  proof (cases "p = ?new")
    case True
    have "?g' ! r ! c = Some (letterOf ?new r c)" if "covers ?new r c" for r c
      using that cell' [of r c] covers_inside [OF new_fits that] by simp
    then show ?thesis using True new_fits by (simp add: wordOnGrid_def)
  next
    case False
    then have p: "wordOnGrid n g p" using that old_words by auto
    have "?g' ! r ! c = Some (letterOf p r c)" if "covers p r c" for r c
    proof -
      have in_g: "g ! r ! c = Some (letterOf p r c)" and "r < n \<and> c < n"
        using p that covers_inside [of n p r c] by (simp_all add: wordOnGrid_def)
      then show ?thesis using keep [of r c] by simp
    qed
    then show ?thesis using p by (simp add: wordOnGrid_def)
  qed
  have cov': "lettersCovered n ?g' (placed @ [?new])"
    unfolding lettersCovered_def
  proof (intro allI impI)
    fix r c assume "r < n" "c < n" "?g' ! r ! c \<noteq> None"
    then consider "covers ?new r c" | "g ! r ! c \<noteq> None" using fresh by blast
    then show "\<exists>p \<in> set (placed @ [?new]). covers p r c"
    proof cases
      case 1
      then show ?thesis by auto
    next
      case 2
      then obtain p where "p \<in> set placed" "covers p r c"
        using old_cov \<open>r < n\<close> \<open>c < n\<close> unfolding lettersCovered_def by blast
      then show ?thesis by auto
    qed
  qed
  have down': "adjacentDown n ?g' (placed @ [?new])"
    unfolding adjacentDown_def
  proof (intro allI impI)
    fix c r assume c: "c < n" and r: "r + 1 < n"
      and a: "?g' ! r ! c \<noteq> None" and b: "?g' ! (r + 1) ! c \<noteq> None"
    have r0: "r < n" using r by simp
    show "\<exists>p \<in> set (placed @ [?new]). \<not> p_horizontal p \<and> covers p r c \<and> covers p (r + 1) c"
    proof (cases "covers ?new r c")
      case True
      note upper = True
      show ?thesis
      proof (cases "covers ?new (r + 1) c")
        case True
        then show ?thesis using upper by auto
      next
        case False
        then have "r + 1 = row + ?L" and "c = col" using upper by (auto simp: cov_new)
        then have "g ! (r + 1) ! c = None" using facts(3) r by simp
        then have "?g' ! (r + 1) ! c = None" using cell' [OF r c] False by simp
        then show ?thesis using b by simp
      qed
    next
      case False
      note upper = False
      show ?thesis
      proof (cases "covers ?new (r + 1) c")
        case True
        then have "r = row - 1" and "row > 0" and "c = col" using upper by (auto simp: cov_new)
        then have "g ! r ! c = None" using facts(2) by simp
        then have "?g' ! r ! c = None" using cell' [OF r0 c] upper by simp
        then show ?thesis using a by simp
      next
        case False
        then have "g ! r ! c \<noteq> None" "g ! (r + 1) ! c \<noteq> None"
          using a b upper cell' [OF r0 c] cell' [OF r c] by simp_all
        then obtain p where "p \<in> set placed" "\<not> p_horizontal p" "covers p r c" "covers p (r + 1) c"
          using old_down r c unfolding adjacentDown_def by blast
        then show ?thesis by auto
      qed
    qed
  qed
  have across': "adjacentAcross n ?g' (placed @ [?new])"
    unfolding adjacentAcross_def
  proof (intro allI impI)
    fix r c assume r: "r < n" and c: "c + 1 < n"
      and a: "?g' ! r ! c \<noteq> None" and b: "?g' ! r ! (c + 1) \<noteq> None"
    have c0: "c < n" using c by simp
    have old_pair: "g ! r ! c \<noteq> None \<and> g ! r ! (c + 1) \<noteq> None"
    proof (cases "covers ?new r c")
      case True
      then have cc: "c = col" and rr: "row \<le> r" "r < row + ?L" by (simp_all add: cov_new)
      then have "\<not> covers ?new r (c + 1)" by (simp add: cov_new)
      then have right: "g ! r ! (c + 1) \<noteq> None" using b cell' [OF r c] by simp
      have "g ! r ! c \<noteq> None"
      proof
        assume "g ! r ! c = None"
        then have "g ! r ! (col + 1) = None" using facts(6) [OF rr] cc c by simp
        then show False using right cc by simp
      qed
      then show ?thesis using right by simp
    next
      case False
      then have left: "g ! r ! c \<noteq> None" using a cell' [OF r c0] by simp
      show ?thesis
      proof (cases "covers ?new r (c + 1)")
        case True
        then have cc: "c + 1 = col" and rr: "row \<le> r" "r < row + ?L" by (simp_all add: cov_new)
        then have pos: "col > 0" and pred: "col - 1 = c" by simp_all
        have "g ! r ! (c + 1) \<noteq> None"
        proof
          assume "g ! r ! (c + 1) = None"
          then have "g ! r ! (col - 1) = None" using facts(5) [OF rr] cc pos by simp
          then show False using left pred by simp
        qed
        then show ?thesis using left by simp
      next
        case False
        then show ?thesis using left b cell' [OF r c] by simp
      qed
    qed
    then obtain p where "p \<in> set placed" "p_horizontal p" "covers p r c" "covers p r (c + 1)"
      using old_across r c unfolding adjacentAcross_def by blast
    then show "\<exists>p \<in> set (placed @ [?new]). p_horizontal p \<and> covers p r c \<and> covers p r (c + 1)"
      by auto
  qed
  show ?thesis
    unfolding crossword_inv_def using sq' words' cov' across' down' by simp
qed

lemma place_preserves:
  assumes "crossword_inv n (g, placed)" and "row < n" and "col < n"
    and "canPlaceWord g (answer w) row col horizontal req"
  shows "crossword_inv n
           (placeWord g (answer w) row col horizontal,
            placed @ [\<lparr>p_word = w, p_row = row, p_col = col, p_horizontal = horizontal\<rparr>])"
  using assms place_preserves_h place_preserves_v by (cases horizontal) simp_all

section \<open>Every attempt keeps the invariant\<close>

lemma intersectingPlacements_sound:
  "p \<in> set (intersectingPlacements grid word req) \<Longrightarrow> soundPlacement grid word p"
  unfolding intersectingPlacements_def Let_def soundPlacement_def
  by (auto split: option.splits if_splits intro: less_imp_diff_less)

lemma adjacentPlacements_sound:
  "p \<in> set (adjacentPlacements grid word) \<Longrightarrow> soundPlacement grid word p"
  unfolding adjacentPlacements_def Let_def soundPlacement_def
  by (auto split: if_splits)

lemma findPlacements_sound:
  "p \<in> set (findPlacements grid word req) \<Longrightarrow> soundPlacement grid word p"
  unfolding findPlacements_def Let_def
  using intersectingPlacements_sound adjacentPlacements_sound
  by (auto split: if_splits)

lemma placeBest_inv:
  assumes "crossword_inv n st"
    and "\<And>p. p \<in> set placements \<Longrightarrow> soundPlacement (fst st) (answer w) p"
  shows "crossword_inv n (placeBest st w placements)"
proof (cases placements)
  case Nil
  then show ?thesis using assms(1) by (simp add: placeBest_def)
next
  case (Cons best rest)
  have len: "length (fst st) = n" using assms(1) by (simp add: crossword_inv_def square_def)
  have "soundPlacement (fst st) (answer w) best" using assms(2) Cons by simp
  then obtain req where "pl_row best < n" "pl_col best < n"
    "canPlaceWord (fst st) (answer w) (pl_row best) (pl_col best) (pl_horizontal best) req"
    unfolding soundPlacement_def len by blast
  moreover have "crossword_inv n (fst st, snd st)" using assms(1) by simp
  ultimately have "crossword_inv n
      (placeWord (fst st) (answer w) (pl_row best) (pl_col best) (pl_horizontal best),
       snd st @ [\<lparr>p_word = w, p_row = pl_row best, p_col = pl_col best,
                  p_horizontal = pl_horizontal best\<rparr>])"
    using place_preserves by blast
  then show ?thesis
    using Cons by (simp add: placeBest_def)
qed

lemma placeRemaining_inv: "crossword_inv n st \<Longrightarrow> crossword_inv n (placeRemaining st w)"
  unfolding placeRemaining_def by (rule placeBest_inv) (simp_all add: findPlacements_sound)

lemma placeOnEdge_inv: "crossword_inv n st \<Longrightarrow> crossword_inv n (placeOnEdge n st w)"
  unfolding placeOnEdge_def by (rule placeBest_inv) (auto simp: findPlacements_sound)

lemma foldl_inv:
  "(\<And>st w. P st \<Longrightarrow> P (f st w)) \<Longrightarrow> P st \<Longrightarrow> P (foldl f st ws)"
  by (induction ws arbitrary: st) simp_all

lemma emptyGrid_inv: "crossword_inv n (emptyGrid n, [])"
  by (simp add: crossword_inv_def square_def emptyGrid_def lettersCovered_def
      adjacentAcross_def adjacentDown_def)

lemma placeFirst_inv:
  assumes "\<And>w. w \<in> set shuffled \<Longrightarrow> 0 < glen w"
  shows "crossword_inv n (placeFirst n shuffled)"
proof (cases shuffled)
  case Nil
  then show ?thesis by (simp add: placeFirst_def emptyGrid_inv)
next
  case (Cons firstWord rest)
  let ?col = "(n - glen firstWord) div 2" and ?row = "n div 2"
  show ?thesis
  proof (cases "canPlaceWord (emptyGrid n) (answer firstWord) ?row ?col True False")
    case False
    then show ?thesis using Cons by (simp add: placeFirst_def Let_def emptyGrid_inv)
  next
    case True
    have "0 < glen firstWord" using assms Cons by simp
    moreover have "?col + glen firstWord \<le> n"
      using canPlace_facts_h(1) [OF True] by (simp add: glen_def emptyGrid_def)
    ultimately have "?row < n" "?col < n" by simp_all
    then have "crossword_inv n
        (placeWord (emptyGrid n) (answer firstWord) ?row ?col True,
         [] @ [\<lparr>p_word = firstWord, p_row = ?row, p_col = ?col, p_horizontal = True\<rparr>])"
      using place_preserves [OF emptyGrid_inv _ _ True] by blast
    then show ?thesis
      using True Cons by (simp add: placeFirst_def Let_def)
  qed
qed

lemma runAttempt_inv:
  assumes "\<And>w. w \<in> set shuffled \<Longrightarrow> 0 < glen w"
  shows "crossword_inv n (b_grid (runAttempt n shuffled), b_placed (runAttempt n shuffled))"
proof -
  let ?st1 = "foldl placeRemaining (placeFirst n shuffled) (drop 1 shuffled)"
  have "crossword_inv n ?st1"
    using placeRemaining_inv placeFirst_inv [OF assms] by (rule foldl_inv)
  then have "crossword_inv n (foldl (placeOnEdge n) ?st1 (shortWords shuffled (snd ?st1)))"
    using placeOnEdge_inv by (rule foldl_inv [rotated])
  then show ?thesis by (simp add: runAttempt_def Let_def)
qed

section \<open>The attempts and the best result\<close>

declare attemptLoop.simps [simp del]

lemma removeDuplicates_subset: "set (removeDuplicates seen ws) \<subseteq> set ws"
  by (induction ws arbitrary: seen) auto

lemma prepared_words:
  assumes "w \<in> set (sortByLength (removeDuplicates seen (prepareWords upper wordList n)))"
  shows "2 \<le> glen w \<and> glen w \<le> n
         \<and> (\<exists>w0 \<in> set wordList. answer w = normalizeJapanese upper (answer w0))"
proof -
  have "w \<in> set (prepareWords upper wordList n)"
    using assms removeDuplicates_subset unfolding sortByLength_def by auto
  then show ?thesis unfolding prepareWords_def by auto
qed

lemma shuffler_set: "shuffler rnd \<Longrightarrow> set (rnd k ws) = set ws"
  unfolding shuffler_def by (metis set_mset_mset)

lemma attemptLoop_done:
  "\<not> attempt < maxAttempts \<Longrightarrow> attemptLoop rnd uniqueWords n attempt bestResult = bestResult"
  by (subst attemptLoop.simps) simp

lemma attemptLoop_step:
  assumes "attempt < maxAttempts"
  shows "attemptLoop rnd uniqueWords n attempt bestResult =
     (let cur = runAttempt n (rnd attempt uniqueWords);
          bestResult' = (if replacesBest bestResult cur then Some cur else bestResult)
      in if b_density cur \<ge> targetDensity \<and> length (b_placed cur) \<ge> minWords n
         then bestResult'
         else attemptLoop rnd uniqueWords n (attempt + 1) bestResult')"
  using assms by (subst attemptLoop.simps) (simp only: if_True)

lemma attemptLoop_result:
  "attemptLoop rnd uniqueWords n attempt bestResult = Some b \<Longrightarrow>
   bestResult = Some b \<or> (\<exists>k. b = runAttempt n (rnd k uniqueWords))"
proof (induction rnd uniqueWords n attempt bestResult rule: attemptLoop.induct)
  case (1 rnd uniqueWords n attempt bestResult)
  show ?case
  proof (cases "attempt < maxAttempts")
    case False
    then show ?thesis using "1.prems" by (simp add: attemptLoop_done)
  next
    case True
    let ?cur = "runAttempt n (rnd attempt uniqueWords)"
    let ?best = "if replacesBest bestResult ?cur then Some ?cur else bestResult"
    let ?stop = "b_density ?cur \<ge> targetDensity \<and> length (b_placed ?cur) \<ge> minWords n"
    have eq: "attemptLoop rnd uniqueWords n attempt bestResult =
        (if ?stop then ?best else attemptLoop rnd uniqueWords n (attempt + 1) ?best)"
      using attemptLoop_step [OF True, of rnd uniqueWords n bestResult] by (simp only: Let_def)
    have kept: "?best = Some b \<Longrightarrow> ?thesis"
      by (cases "replacesBest bestResult ?cur") auto
    show ?thesis
    proof (cases ?stop)
      case stop: True
      have "?best = Some b"
        using "1.prems" unfolding eq if_P [OF stop] .
      then show ?thesis by (rule kept)
    next
      case go: False
      have "attemptLoop rnd uniqueWords n (attempt + 1) ?best = Some b"
        using "1.prems" unfolding eq if_not_P [OF go] .
      then have "?best = Some b \<or> (\<exists>k. b = runAttempt n (rnd k uniqueWords))"
        by (rule "1.IH" [OF True refl refl go])
      then show ?thesis using kept by blast
    qed
  qed
qed

lemma attemptLoop_Some:
  "attempt < maxAttempts \<or> bestResult \<noteq> None \<Longrightarrow>
   attemptLoop rnd uniqueWords n attempt bestResult \<noteq> None"
proof (induction rnd uniqueWords n attempt bestResult rule: attemptLoop.induct)
  case (1 rnd uniqueWords n attempt bestResult)
  show ?case
  proof (cases "attempt < maxAttempts")
    case False
    then show ?thesis using "1.prems" by (simp add: attemptLoop_done)
  next
    case True
    let ?cur = "runAttempt n (rnd attempt uniqueWords)"
    let ?best = "if replacesBest bestResult ?cur then Some ?cur else bestResult"
    let ?stop = "b_density ?cur \<ge> targetDensity \<and> length (b_placed ?cur) \<ge> minWords n"
    have eq: "attemptLoop rnd uniqueWords n attempt bestResult =
        (if ?stop then ?best else attemptLoop rnd uniqueWords n (attempt + 1) ?best)"
      using attemptLoop_step [OF True, of rnd uniqueWords n bestResult] by (simp only: Let_def)
    have best: "?best \<noteq> None" by (cases bestResult) (simp_all add: replacesBest_def)
    show ?thesis
    proof (cases ?stop)
      case stop: True
      show ?thesis unfolding eq if_P [OF stop] by (rule best)
    next
      case go: False
      have "attemptLoop rnd uniqueWords n (attempt + 1) ?best \<noteq> None"
        using "1.IH" [OF True refl refl go] best by blast
      then show ?thesis unfolding eq if_not_P [OF go] .
    qed
  qed
qed

lemma searchBest_attempt:
  "\<exists>k. searchBest upper rnd wordList n = Some (runAttempt n (rnd k (uniqueWordsOf upper wordList n)))"
proof -
  have "maxAttempts > 0" by (simp add: maxAttempts_def)
  then obtain b where b: "searchBest upper rnd wordList n = Some b"
    using attemptLoop_Some [of 0 None rnd _ n] unfolding searchBest_def by auto
  then show ?thesis
    using attemptLoop_result [of rnd "uniqueWordsOf upper wordList n" n 0 None b]
    unfolding searchBest_def by auto
qed

lemma generateCrossword_success:
  assumes "generateCrossword upper rnd wordList n = Inr res"
  shows "\<exists>k. res = buildResult n (runAttempt n (rnd k (uniqueWordsOf upper wordList n)))
            \<and> b_placed (runAttempt n (rnd k (uniqueWordsOf upper wordList n))) \<noteq> []"
proof -
  obtain k where "searchBest upper rnd wordList n
      = Some (runAttempt n (rnd k (uniqueWordsOf upper wordList n)))"
    using searchBest_attempt by blast
  then show ?thesis
    using assms unfolding generateCrossword_def by (auto split: if_splits)
qed

lemma shuffled_words:
  assumes "shuffler rnd" and "w \<in> set (rnd k (uniqueWordsOf upper wordList n))"
  shows "2 \<le> glen w \<and> glen w \<le> n
         \<and> (\<exists>w0 \<in> set wordList. answer w = normalizeJapanese upper (answer w0))"
  using assms prepared_words [of w "{}" upper wordList n]
  unfolding uniqueWordsOf_def by (simp add: shuffler_set)

lemma attempt_inv:
  assumes "shuffler rnd"
  shows "crossword_inv n
          (b_grid (runAttempt n (rnd k (uniqueWordsOf upper wordList n))),
           b_placed (runAttempt n (rnd k (uniqueWordsOf upper wordList n))))"
proof (rule runAttempt_inv)
  fix w assume "w \<in> set (rnd k (uniqueWordsOf upper wordList n))"
  then show "0 < glen w" using shuffled_words [OF assms] by fastforce
qed

section \<open>The returned crossword\<close>

lemma finalGrid_cell:
  assumes "square n grid" "r < n" "c < n"
  shows "letter (finalGrid grid numberGrid ! r ! c) = grid ! r ! c"
    and "number (finalGrid grid numberGrid ! r ! c)
           = (if numberGrid ! r ! c = 0 then None else Some (numberGrid ! r ! c))"
    and "isBlack (finalGrid grid numberGrid ! r ! c) \<longleftrightarrow> grid ! r ! c = None"
  using assms by (simp_all add: finalGrid_def square_def)

lemma spans_finalWord: "spans (finalWord numberGrid p) r c = covers p r c"
  by (simp add: spans_def finalWord_def covers_def inRun_def)

lemma inv_covered:
  "crossword_inv n (g, placed) \<Longrightarrow> r < n \<Longrightarrow> c < n \<Longrightarrow> g ! r ! c \<noteq> None \<Longrightarrow>
   \<exists>p \<in> set placed. covers p r c"
  unfolding crossword_inv_def lettersCovered_def by (metis fst_conv snd_conv)

lemma inv_across:
  "crossword_inv n (g, placed) \<Longrightarrow> r < n \<Longrightarrow> c + 1 < n \<Longrightarrow>
   g ! r ! c \<noteq> None \<Longrightarrow> g ! r ! (c + 1) \<noteq> None \<Longrightarrow>
   \<exists>p \<in> set placed. p_horizontal p \<and> covers p r c \<and> covers p r (c + 1)"
  unfolding crossword_inv_def adjacentAcross_def by (metis fst_conv snd_conv)

lemma inv_down:
  "crossword_inv n (g, placed) \<Longrightarrow> c < n \<Longrightarrow> r + 1 < n \<Longrightarrow>
   g ! r ! c \<noteq> None \<Longrightarrow> g ! (r + 1) ! c \<noteq> None \<Longrightarrow>
   \<exists>p \<in> set placed. \<not> p_horizontal p \<and> covers p r c \<and> covers p (r + 1) c"
  unfolding crossword_inv_def adjacentDown_def by (metis fst_conv snd_conv)

lemma inv_word:
  "crossword_inv n (g, placed) \<Longrightarrow> p \<in> set placed \<Longrightarrow> wordOnGrid n g p"
  unfolding crossword_inv_def by simp

lemma result_shape:
  assumes "shuffler rnd" and "generateCrossword upper rnd wordList n = Inr res"
  obtains b where "crossword_inv n (b_grid b, b_placed b)"
    and "res = buildResult n b" and "b_placed b \<noteq> []"
  using generateCrossword_success [OF assms(2)] attempt_inv [OF assms(1)] by blast

text \<open>
  C10 (no orphan letters): in every successful result the letter cells of the returned grid
  are exactly the cells spanned by the words of the returned list: every letter cell is
  covered by at least one placed word, and every cell of a placed word is a letter cell of
  the grid.
\<close>

theorem no_orphan_letters:
  assumes "shuffler rnd" and "generateCrossword upper rnd wordList n = Inr res"
  shows "(r < n \<and> c < n \<and> letter (r_grid res ! r ! c) \<noteq> None)
         \<longleftrightarrow> (\<exists>w \<in> set (r_words res). spans w r c)"
proof -
  obtain b where inv: "crossword_inv n (b_grid b, b_placed b)" and res: "res = buildResult n b"
    using result_shape [OF assms] by blast
  let ?ng = "assignNumbers (b_grid b)"
  have sq: "square n (b_grid b)" using inv by (simp add: crossword_inv_def)
  have ws: "r_words res = map (finalWord ?ng) (b_placed b)"
    and gr: "r_grid res = finalGrid (b_grid b) ?ng"
    using res by (simp_all add: buildResult_def Let_def)
  show ?thesis
  proof
    assume a: "r < n \<and> c < n \<and> letter (r_grid res ! r ! c) \<noteq> None"
    then have "b_grid b ! r ! c \<noteq> None"
      using finalGrid_cell(1) [OF sq, of r c ?ng] gr by simp
    then obtain p where "p \<in> set (b_placed b)" "covers p r c"
      using inv_covered [OF inv] a by blast
    then show "\<exists>w \<in> set (r_words res). spans w r c"
      using ws spans_finalWord by auto
  next
    assume "\<exists>w \<in> set (r_words res). spans w r c"
    then obtain p where p: "p \<in> set (b_placed b)" "covers p r c"
      using ws spans_finalWord by auto
    then have on: "wordOnGrid n (b_grid b) p"
      using inv_word [OF inv] by blast
    then have rc: "r < n \<and> c < n" using covers_inside p(2) unfolding wordOnGrid_def by blast
    moreover have "b_grid b ! r ! c \<noteq> None" using on p(2) unfolding wordOnGrid_def by auto
    ultimately show "r < n \<and> c < n \<and> letter (r_grid res ! r ! c) \<noteq> None"
      using finalGrid_cell(1) [OF sq, of r c ?ng] gr by simp
  qed
qed

text \<open>
  C1 (adjacency invariant): if synthesis succeeds, then for every pair of orthogonally
  adjacent letter cells of the returned grid there is a word in the returned list that runs
  in the direction of the adjacency and contains both cells, at consecutive indices of its
  grapheme sequence, with the letters of the two cells.
\<close>

theorem adjacency_invariant:
  assumes "shuffler rnd" and "generateCrossword upper rnd wordList n = Inr res"
  shows "(\<forall>r < n. \<forall>c. c + 1 < n \<longrightarrow>
            letter (r_grid res ! r ! c) \<noteq> None \<longrightarrow> letter (r_grid res ! r ! (c + 1)) \<noteq> None \<longrightarrow>
            (\<exists>w \<in> set (r_words res). orientation w = Across
                \<and> spans w r c \<and> spans w r (c + 1)
                \<and> letter (r_grid res ! r ! c) = Some (spread (answer w) ! (c - startCol w))
                \<and> letter (r_grid res ! r ! (c + 1)) = Some (spread (answer w) ! (c - startCol w + 1))))
       \<and> (\<forall>c < n. \<forall>r. r + 1 < n \<longrightarrow>
            letter (r_grid res ! r ! c) \<noteq> None \<longrightarrow> letter (r_grid res ! (r + 1) ! c) \<noteq> None \<longrightarrow>
            (\<exists>w \<in> set (r_words res). orientation w = Down
                \<and> spans w r c \<and> spans w (r + 1) c
                \<and> letter (r_grid res ! r ! c) = Some (spread (answer w) ! (r - startRow w))
                \<and> letter (r_grid res ! (r + 1) ! c) = Some (spread (answer w) ! (r - startRow w + 1))))"
proof -
  obtain b where inv: "crossword_inv n (b_grid b, b_placed b)" and res: "res = buildResult n b"
    using result_shape [OF assms] by blast
  let ?ng = "assignNumbers (b_grid b)"
  let ?g = "b_grid b"
  have sq: "square n ?g" using inv by (simp add: crossword_inv_def)
  have ws: "r_words res = map (finalWord ?ng) (b_placed b)"
    and gr: "r_grid res = finalGrid ?g ?ng"
    using res by (simp_all add: buildResult_def Let_def)
  have cell: "letter (r_grid res ! r ! c) = ?g ! r ! c" if "r < n" "c < n" for r c
    using finalGrid_cell(1) [OF sq that] gr by simp
  have on: "?g ! r ! c = Some (letterOf p r c)" if "p \<in> set (b_placed b)" "covers p r c" for p r c
    using inv_word [OF inv that(1)] that(2) unfolding wordOnGrid_def by blast
  have across: "\<exists>w \<in> set (r_words res). orientation w = Across
                \<and> spans w r c \<and> spans w r (c + 1)
                \<and> letter (r_grid res ! r ! c) = Some (spread (answer w) ! (c - startCol w))
                \<and> letter (r_grid res ! r ! (c + 1)) = Some (spread (answer w) ! (c - startCol w + 1))"
    if r: "r < n" and c: "c + 1 < n" and a: "letter (r_grid res ! r ! c) \<noteq> None"
      and b: "letter (r_grid res ! r ! (c + 1)) \<noteq> None" for r c
  proof -
    have "?g ! r ! c \<noteq> None" "?g ! r ! (c + 1) \<noteq> None"
      using a b cell [of r c] cell [of r "c + 1"] r c by simp_all
    then obtain p where p: "p \<in> set (b_placed b)" "p_horizontal p" "covers p r c" "covers p r (c + 1)"
      using inv_across [OF inv r c] by blast
    let ?w = "finalWord ?ng p"
    have le: "p_col p \<le> c" using p(2,3) by (simp add: covers_def inRun_def)
    have "?w \<in> set (r_words res)" using p(1) ws by simp
    moreover have "orientation ?w = Across" using p(2) by (simp add: finalWord_def)
    moreover have "spans ?w r c" "spans ?w r (c + 1)" using p(3,4) by (simp_all add: spans_finalWord)
    moreover have "letter (r_grid res ! r ! c) = Some (spread (answer ?w) ! (c - startCol ?w))"
      using on [OF p(1,3)] cell [of r c] r c p(2)
      by (simp add: letterOf_def runIndex_def finalWord_def)
    moreover have "letter (r_grid res ! r ! (c + 1)) = Some (spread (answer ?w) ! (c - startCol ?w + 1))"
      using on [OF p(1,4)] cell [of r "c + 1"] r c p(2) le
      by (simp add: letterOf_def runIndex_def finalWord_def Suc_diff_le)
    ultimately show ?thesis by blast
  qed
  have down: "\<exists>w \<in> set (r_words res). orientation w = Down
                \<and> spans w r c \<and> spans w (r + 1) c
                \<and> letter (r_grid res ! r ! c) = Some (spread (answer w) ! (r - startRow w))
                \<and> letter (r_grid res ! (r + 1) ! c) = Some (spread (answer w) ! (r - startRow w + 1))"
    if c: "c < n" and r: "r + 1 < n" and a: "letter (r_grid res ! r ! c) \<noteq> None"
      and b: "letter (r_grid res ! (r + 1) ! c) \<noteq> None" for r c
  proof -
    have "?g ! r ! c \<noteq> None" "?g ! (r + 1) ! c \<noteq> None"
      using a b cell [of r c] cell [of "r + 1" c] r c by simp_all
    then obtain p where p: "p \<in> set (b_placed b)" "\<not> p_horizontal p" "covers p r c" "covers p (r + 1) c"
      using inv_down [OF inv c r] by blast
    let ?w = "finalWord ?ng p"
    have le: "p_row p \<le> r" using p(2,3) by (simp add: covers_def inRun_def)
    have "?w \<in> set (r_words res)" using p(1) ws by simp
    moreover have "orientation ?w = Down" using p(2) by (simp add: finalWord_def)
    moreover have "spans ?w r c" "spans ?w (r + 1) c" using p(3,4) by (simp_all add: spans_finalWord)
    moreover have "letter (r_grid res ! r ! c) = Some (spread (answer ?w) ! (r - startRow ?w))"
      using on [OF p(1,3)] cell [of r c] r c p(2)
      by (simp add: letterOf_def runIndex_def finalWord_def)
    moreover have "letter (r_grid res ! (r + 1) ! c) = Some (spread (answer ?w) ! (r - startRow ?w + 1))"
      using on [OF p(1,4)] cell [of "r + 1" c] r c p(2) le
      by (simp add: letterOf_def runIndex_def finalWord_def Suc_diff_le)
    ultimately show ?thesis by blast
  qed
  show ?thesis using across down by blast
qed

section \<open>Failure and success of the synthesis\<close>

lemma replacesBest_same: "\<not> replacesBest (Some x) x"
  by (simp add: replacesBest_def)

lemma attemptLoop_same:
  assumes "\<And>k. runAttempt n (rnd k uniqueWords) = x"
  shows "attemptLoop rnd uniqueWords n attempt (Some x) = Some x"
proof (induction "maxAttempts - attempt" arbitrary: attempt)
  case 0
  then show ?case by (simp add: attemptLoop_done)
next
  case (Suc d)
  then have lt: "attempt < maxAttempts" and d: "d = maxAttempts - (attempt + 1)" by simp_all
  show ?case
    using attemptLoop_step [OF lt, of rnd uniqueWords n "Some x"] Suc.hyps(1) [OF d]
    by (simp add: assms Let_def replacesBest_same)
qed

lemma searchBest_same:
  assumes "\<And>k. runAttempt n (rnd k (uniqueWordsOf upper wordList n)) = x"
  shows "searchBest upper rnd wordList n = Some x"
proof -
  have "0 < maxAttempts" by (simp add: maxAttempts_def)
  then show ?thesis
    unfolding searchBest_def
    using attemptLoop_step [of 0 rnd "uniqueWordsOf upper wordList n" n None]
          attemptLoop_same [of n rnd "uniqueWordsOf upper wordList n" x 1, OF assms]
    by (simp add: assms Let_def replacesBest_def)
qed

lemma s1_unique: "uniqueWordsOf upperLatin s1_words 7 = s1_words"
  by code_simp

lemma s1_attempt: "runAttempt 7 s1_words = s1_best"
  by code_simp

lemma shuffler_keepOrder: "shuffler keepOrder"
  by (simp add: shuffler_def keepOrder_def)

lemma s1_generate: "generateCrossword upperLatin keepOrder s1_words 7 = Inr s1_result"
proof -
  have "runAttempt 7 (keepOrder k (uniqueWordsOf upperLatin s1_words 7)) = s1_best" for k
    by (simp add: keepOrder_def s1_unique s1_attempt)
  then have "searchBest upperLatin keepOrder s1_words 7 = Some s1_best"
    by (rule searchBest_same)
  then show ?thesis
    by (simp add: generateCrossword_def s1_result_def s1_best_def)
qed

lemma s1_letters:
  "letter (r_grid s1_result ! 3 ! 2) = Some [0x30CD]"
  "letter (r_grid s1_result ! 3 ! 3) = Some [0x30B3]"
  "letter (r_grid s1_result ! 4 ! 3) = Some [0x30C8]"
  unfolding s1_result_def s1_best_def by code_simp+

theorem no_orphan_letters_witness:
  "shuffler keepOrder \<and> generateCrossword upperLatin keepOrder s1_words 7 = Inr s1_result
   \<and> ((3::nat) < 7 \<and> (2::nat) < 7 \<and> letter (r_grid s1_result ! 3 ! 2) \<noteq> None)
   \<and> (\<exists>w \<in> set (r_words s1_result). spans w 3 2)"
proof -
  have cell: "(3::nat) < 7 \<and> (2::nat) < 7 \<and> letter (r_grid s1_result ! 3 ! 2) \<noteq> None"
    by (simp add: s1_letters)
  then have "\<exists>w \<in> set (r_words s1_result). spans w 3 2"
    using no_orphan_letters [OF shuffler_keepOrder s1_generate, of 3 2] by (rule rev_iffD1)
  then show ?thesis using shuffler_keepOrder s1_generate cell by simp
qed

theorem adjacency_invariant_witness:
  "shuffler keepOrder \<and> generateCrossword upperLatin keepOrder s1_words 7 = Inr s1_result
   \<and> letter (r_grid s1_result ! 3 ! 2) \<noteq> None \<and> letter (r_grid s1_result ! 3 ! (2 + 1)) \<noteq> None
   \<and> (\<exists>w \<in> set (r_words s1_result). orientation w = Across
          \<and> spans w 3 2 \<and> spans w 3 (2 + 1)
          \<and> letter (r_grid s1_result ! 3 ! 2) = Some (spread (answer w) ! (2 - startCol w))
          \<and> letter (r_grid s1_result ! 3 ! (2 + 1)) = Some (spread (answer w) ! (2 - startCol w + 1)))
   \<and> letter (r_grid s1_result ! (3 + 1) ! 3) \<noteq> None
   \<and> (\<exists>w \<in> set (r_words s1_result). orientation w = Down
          \<and> spans w 3 3 \<and> spans w (3 + 1) 3
          \<and> letter (r_grid s1_result ! 3 ! 3) = Some (spread (answer w) ! (3 - startRow w))
          \<and> letter (r_grid s1_result ! (3 + 1) ! 3) = Some (spread (answer w) ! (3 - startRow w + 1)))"
proof -
  note inv = adjacency_invariant [OF shuffler_keepOrder s1_generate]
  have a: "letter (r_grid s1_result ! 3 ! 2) \<noteq> None"
    and b: "letter (r_grid s1_result ! 3 ! (2 + 1)) \<noteq> None"
    and c: "letter (r_grid s1_result ! 3 ! 3) \<noteq> None"
    and d: "letter (r_grid s1_result ! (3 + 1) ! 3) \<noteq> None"
    by (simp_all add: s1_letters)
  have r: "(3::nat) < 7" and c1: "(2::nat) + 1 < 7" and r1: "(3::nat) + 1 < 7" by simp_all
  note across = inv [THEN conjunct1, rule_format, OF r c1 a b]
  note down = inv [THEN conjunct2, rule_format, OF r r1 c d]
  show ?thesis
    using shuffler_keepOrder s1_generate a b d across down by (intro conjI)
qed

lemma emptyGrid_nth: "r < n \<Longrightarrow> c < n \<Longrightarrow> emptyGrid n ! r ! c = None"
  by (simp add: emptyGrid_def)

lemma canPlace_empty:
  assumes "row < n" and "col + length (spread word) \<le> n"
  shows "canPlaceWord (emptyGrid n) word row col True False"
proof -
  have len: "length (emptyGrid n) = n" by (simp add: emptyGrid_def)
  have before: "emptyGrid n ! row ! (col - 1) = None"
    using assms by (intro emptyGrid_nth) simp_all
  have after: "emptyGrid n ! row ! (col + length (spread word)) = None"
    if "col + length (spread word) < n"
    using assms that by (intro emptyGrid_nth) simp_all
  have ends: "endsFree (emptyGrid n) (length (spread word)) row col True"
  proof (cases "col + length (spread word) < n")
    case True
    then show ?thesis using assms before after by (simp add: endsFree_def len)
  next
    case False
    then show ?thesis using assms before by (simp add: endsFree_def len)
  qed
  have "cellFits (emptyGrid n) (spread word) row col True i" if "i < length (spread word)" for i
  proof -
    have "col + i < n" using that assms by simp
    then have "emptyGrid n ! row ! (col + i) = None"
      and "emptyGrid n ! (row - 1) ! (col + i) = None"
      and "row + 1 < n \<Longrightarrow> emptyGrid n ! (row + 1) ! (col + i) = None"
      using assms(1) by (simp_all add: emptyGrid_nth)
    then show ?thesis
      by (simp add: cellFits_def runRow_def runCol_def Let_def len)
  qed
  then show ?thesis using ends by (simp add: canPlaceWord_char)
qed

lemma placeBest_grows: "length (snd st) \<le> length (snd (placeBest st w ps))"
  by (cases ps) (simp_all add: placeBest_def)

lemma foldl_grows:
  assumes "\<And>st w. length (snd st) \<le> length (snd (f st w))"
  shows "length (snd st) \<le> length (snd (foldl f st ws))"
proof (induction ws arbitrary: st)
  case Nil
  show ?case by simp
next
  case (Cons w ws)
  have "length (snd st) \<le> length (snd (f st w))" by (rule assms)
  also have "\<dots> \<le> length (snd (foldl f (f st w) ws))" by (rule Cons.IH)
  finally show ?case by simp
qed

lemma runAttempt_places_first:
  assumes "0 < glen w" and "glen w \<le> n"
  shows "b_placed (runAttempt n (w # rest)) \<noteq> []"
proof -
  have "(n - glen w) div 2 + glen w \<le> n" using assms by simp
  moreover have "n div 2 < n" using assms by simp
  ultimately have "canPlaceWord (emptyGrid n) (answer w) (n div 2) ((n - glen w) div 2) True False"
    using canPlace_empty [of "n div 2" n "(n - glen w) div 2" "answer w"] by (simp add: glen_def)
  then have first: "length (snd (placeFirst n (w # rest))) = 1"
    by (simp add: placeFirst_def Let_def)
  let ?st1 = "foldl placeRemaining (placeFirst n (w # rest)) (drop 1 (w # rest))"
  have "1 \<le> length (snd ?st1)"
    using foldl_grows [of placeRemaining "placeFirst n (w # rest)" "drop 1 (w # rest)"]
          placeBest_grows first
    unfolding placeRemaining_def by simp
  also have "\<dots> \<le> length (snd (foldl (placeOnEdge n) ?st1 (shortWords (w # rest) (snd ?st1))))"
    by (rule foldl_grows) (simp add: placeOnEdge_def placeBest_grows)
  finally show ?thesis
    by (auto simp: runAttempt_def Let_def)
qed

lemma runAttempt_nothing: "b_placed (runAttempt n []) = []"
  by (simp add: runAttempt_def Let_def placeFirst_def shortWords_def)

lemma removeDuplicates_Nil: "removeDuplicates {} ws = [] \<longleftrightarrow> ws = []"
  by (cases ws) simp_all

lemma uniqueWordsOf_Nil: "uniqueWordsOf upper wordList n = [] \<longleftrightarrow> prepareWords upper wordList n = []"
proof -
  have "sort_key f xs = [] \<longleftrightarrow> xs = []" for f :: "WordClue \<Rightarrow> nat \<times> nat" and xs
    by (metis length_sort list.size(3) length_0_conv)
  then show ?thesis
    by (simp add: uniqueWordsOf_def sortByLength_def removeDuplicates_Nil)
qed

lemma prepareWords_Nil:
  "prepareWords upper wordList n = [] \<longleftrightarrow> (\<forall>w \<in> set wordList. \<not> survives upper n w)"
  by (auto simp: prepareWords_def survives_def glen_def filter_empty_conv)

lemma shuffler_Nil: "shuffler rnd \<Longrightarrow> rnd k ws = [] \<longleftrightarrow> ws = []"
  unfolding shuffler_def by (metis mset_zero_iff)

text \<open>
  C8 (InsufficientWords): synthesis fails exactly when the final best result has no placed
  word (a best result always exists after the loop); when no candidate survives the filter
  (every normalized answer has fewer than 2 or more than \<open>n\<close> graphemes) the filtered list
  is empty and synthesis fails; when at least one candidate survives, synthesis succeeds.
\<close>

theorem insufficient_words:
  assumes "shuffler rnd"
  shows "(generateCrossword upper rnd wordList n = Inl FailedToGenerate
           \<longleftrightarrow> (\<exists>b. searchBest upper rnd wordList n = Some b \<and> b_placed b = []))
       \<and> ((\<forall>w \<in> set wordList. \<not> survives upper n w) \<longrightarrow>
             prepareWords upper wordList n = []
             \<and> generateCrossword upper rnd wordList n = Inl FailedToGenerate)
       \<and> ((\<exists>w \<in> set wordList. survives upper n w) \<longrightarrow>
             (\<exists>res. generateCrossword upper rnd wordList n = Inr res))"
proof -
  let ?uw = "uniqueWordsOf upper wordList n"
  obtain k where best: "searchBest upper rnd wordList n = Some (runAttempt n (rnd k ?uw))"
    using searchBest_attempt by blast
  have first: "generateCrossword upper rnd wordList n = Inl FailedToGenerate
           \<longleftrightarrow> (\<exists>b. searchBest upper rnd wordList n = Some b \<and> b_placed b = [])"
    using best by (simp add: generateCrossword_def)
  have second: "prepareWords upper wordList n = []
             \<and> generateCrossword upper rnd wordList n = Inl FailedToGenerate"
    if "\<forall>w \<in> set wordList. \<not> survives upper n w"
  proof -
    have none: "prepareWords upper wordList n = []" using that by (simp add: prepareWords_Nil)
    then have "rnd k ?uw = []"
      using assms by (simp add: shuffler_Nil uniqueWordsOf_Nil)
    then have "b_placed (runAttempt n (rnd k ?uw)) = []" by (simp add: runAttempt_nothing)
    then show ?thesis using none best first by simp
  qed
  have third: "\<exists>res. generateCrossword upper rnd wordList n = Inr res"
    if "\<exists>w \<in> set wordList. survives upper n w"
  proof -
    have "rnd k ?uw \<noteq> []"
      using that assms by (simp add: shuffler_Nil uniqueWordsOf_Nil prepareWords_Nil)
    then obtain w rest where sh: "rnd k ?uw = w # rest" by (cases "rnd k ?uw") auto
    then have "2 \<le> glen w \<and> glen w \<le> n"
      using shuffled_words [OF assms, of w k upper wordList n] by simp
    then have "b_placed (runAttempt n (rnd k ?uw)) \<noteq> []"
      unfolding sh using runAttempt_places_first [of w n rest] by simp
    then show ?thesis using best by (simp add: generateCrossword_def)
  qed
  show ?thesis using first second third by blast
qed

lemma s4_rejected: "\<forall>w \<in> set s4_words. \<not> survives upperLatin 5 w"
  by code_simp

lemma s1_survives: "\<exists>w \<in> set s1_words. survives upperLatin 7 w"
  by code_simp

theorem insufficient_words_witness:
  "shuffler keepOrder
   \<and> \<not> survives upperLatin 5 (mkWord [0x30A2] [0x41])
   \<and> prepareWords upperLatin s4_words 5 = []
   \<and> generateCrossword upperLatin keepOrder s4_words 5 = Inl FailedToGenerate
   \<and> (\<exists>b. searchBest upperLatin keepOrder s4_words 5 = Some b \<and> b_placed b = [])
   \<and> (\<exists>w \<in> set s1_words. survives upperLatin 7 w)
   \<and> (\<exists>res. generateCrossword upperLatin keepOrder s1_words 7 = Inr res)"
proof -
  note t4 = insufficient_words [OF shuffler_keepOrder, of upperLatin s4_words 5]
  note t1 = insufficient_words [OF shuffler_keepOrder, of upperLatin s1_words 7]
  have fail: "prepareWords upperLatin s4_words 5 = []
      \<and> generateCrossword upperLatin keepOrder s4_words 5 = Inl FailedToGenerate"
    using t4 [THEN conjunct2, THEN conjunct1] s4_rejected by (rule mp)
  then have best: "\<exists>b. searchBest upperLatin keepOrder s4_words 5 = Some b \<and> b_placed b = []"
    using t4 [THEN conjunct1] by simp
  have ok: "\<exists>res. generateCrossword upperLatin keepOrder s1_words 7 = Inr res"
    using t1 [THEN conjunct2, THEN conjunct2] s1_survives by (rule mp)
  have one: "\<not> survives upperLatin 5 (mkWord [0x30A2] [0x41])"
    using s4_rejected by (simp add: s4_words_def)
  show ?thesis
    using shuffler_keepOrder one fail best s1_survives ok by (intro conjI) simp_all
qed

section \<open>Checking answers\<close>

lemma answersOf_from:
  "foldl (\<lambda>acc w. acc(clueKey (position w) (orientationName (orientation w)) \<mapsto> answer w)) m ws k = Some v
   \<Longrightarrow> m k = Some v \<or> (\<exists>w \<in> set ws. v = answer w)"
proof (induction ws arbitrary: m)
  case Nil
  then show ?case by simp
next
  case (Cons w ws)
  let ?m = "m(clueKey (position w) (orientationName (orientation w)) \<mapsto> answer w)"
  have "?m k = Some v \<or> (\<exists>w \<in> set ws. v = answer w)"
    using Cons.IH [of ?m] Cons.prems by simp
  then show ?case by (auto split: if_splits)
qed

lemma answersOf_ran: "answersOf ws k = Some v \<Longrightarrow> \<exists>w \<in> set ws. v = answer w"
  unfolding answersOf_def using answersOf_from [of Map.empty ws k v] by simp

lemma placeBest_words:
  "p_word ` set (snd (placeBest st w ps)) \<subseteq> insert w (p_word ` set (snd st))"
  by (cases ps) (auto simp: placeBest_def)

lemma foldl_words:
  assumes "\<And>st w. p_word ` set (snd (f st w)) \<subseteq> insert w (p_word ` set (snd st))"
  shows "p_word ` set (snd (foldl f st ws)) \<subseteq> set ws \<union> p_word ` set (snd st)"
proof (induction ws arbitrary: st)
  case Nil
  show ?case by simp
next
  case (Cons w ws)
  have "p_word ` set (snd (foldl f (f st w) ws)) \<subseteq> set ws \<union> p_word ` set (snd (f st w))"
    by (rule Cons.IH)
  then show ?case using assms [of st w] by auto
qed

lemma placeFirst_words: "p_word ` set (snd (placeFirst n shuffled)) \<subseteq> set shuffled"
  by (cases shuffled) (auto simp: placeFirst_def Let_def)

lemma runAttempt_words:
  assumes "p \<in> set (b_placed (runAttempt n shuffled))"
  shows "p_word p \<in> set shuffled"
proof -
  let ?st1 = "foldl placeRemaining (placeFirst n shuffled) (drop 1 shuffled)"
  let ?st2 = "foldl (placeOnEdge n) ?st1 (shortWords shuffled (snd ?st1))"
  have one: "p_word ` set (snd ?st1) \<subseteq> set (drop 1 shuffled) \<union> p_word ` set (snd (placeFirst n shuffled))"
    by (rule foldl_words) (simp add: placeRemaining_def placeBest_words)
  have "set (drop 1 shuffled) \<subseteq> set shuffled" by (rule set_drop_subset)
  then have st1: "p_word ` set (snd ?st1) \<subseteq> set shuffled"
    using one placeFirst_words [of n shuffled] by blast
  have two: "p_word ` set (snd ?st2) \<subseteq> set (shortWords shuffled (snd ?st1)) \<union> p_word ` set (snd ?st1)"
    by (rule foldl_words) (simp add: placeOnEdge_def placeBest_words)
  have "set (shortWords shuffled (snd ?st1)) \<subseteq> set shuffled"
    by (auto simp: shortWords_def)
  then have "p_word ` set (snd ?st2) \<subseteq> set shuffled" using two st1 by blast
  moreover have "p_word p \<in> p_word ` set (snd ?st2)"
    using assms by (simp add: runAttempt_def Let_def)
  ultimately show ?thesis by blast
qed

lemma result_answers:
  assumes "shuffler rnd" and "generateCrossword upper rnd wordList n = Inr res"
    and "w \<in> set (r_words res)"
  shows "2 \<le> length (spread (answer w))
         \<and> (\<exists>w0 \<in> set wordList. answer w = normalizeJapanese upper (answer w0))"
proof -
  obtain k where res: "res = buildResult n (runAttempt n (rnd k (uniqueWordsOf upper wordList n)))"
    using generateCrossword_success [OF assms(2)] by blast
  then obtain p where p: "p \<in> set (b_placed (runAttempt n (rnd k (uniqueWordsOf upper wordList n))))"
    and w: "answer w = answer (p_word p)"
    using assms(3) by (auto simp: buildResult_def Let_def finalWord_def)
  have "p_word p \<in> set (rnd k (uniqueWordsOf upper wordList n))"
    using p by (rule runAttempt_words)
  then show ?thesis
    using shuffled_words [OF assms(1)] w unfolding glen_def by fastforce
qed

lemma concat_spread: "concat (spread s) = s"
  by (induction s rule: spread.induct) simp_all

lemma altered_differs:
  assumes "i < length xs" and "g \<noteq> xs ! i"
  shows "concat (xs[i := g]) \<noteq> concat xs"
proof
  assume eq: "concat (xs[i := g]) = concat xs"
  have a: "xs = take i xs @ xs ! i # drop (Suc i) xs"
    using assms(1) by (rule id_take_nth_drop)
  have b: "xs[i := g] = take i xs @ g # drop (Suc i) xs"
    using assms(1) by (rule upd_conv_take_nth_drop)
  have "concat (take i xs) @ g @ concat (drop (Suc i) xs)
        = concat (take i xs) @ xs ! i @ concat (drop (Suc i) xs)"
    using eq by (subst (asm) b, subst (asm) (2) a) simp
  then have "g = xs ! i" by simp
  then show False using assms(2) by simp
qed

lemma checkEntry_correct:
  assumes "tbl k = Some v" "v \<noteq> []" "normalizeJapanese upper u = v"
  shows "checkEntry upper tbl cr (k, u) = cr\<lparr>correct := correct cr @ [k]\<rparr>"
  using assms by (simp add: checkEntry_def)

lemma checkEntry_incorrect:
  assumes "tbl k = Some v" "v \<noteq> []" "normalizeJapanese upper u \<noteq> v"
  shows "checkEntry upper tbl cr (k, u) = cr\<lparr>incorrect := incorrect cr @ [k]\<rparr>"
  using assms by (simp add: checkEntry_def)

lemma checkEntry_keeps:
  "set (incorrect cr) \<subseteq> set (incorrect (checkEntry upper tbl cr e))"
  by (auto simp: checkEntry_def split: option.splits)

lemma check_keeps:
  "set (incorrect cr) \<subseteq> set (incorrect (foldl (checkEntry upper tbl) cr es))"
proof (induction es arbitrary: cr)
  case Nil
  show ?case by simp
next
  case (Cons e es)
  show ?case using Cons.IH [of "checkEntry upper tbl cr e"] checkEntry_keeps [of cr upper tbl e] by auto
qed

lemma check_all_correct:
  assumes "\<And>k. k \<in> set keys \<Longrightarrow> \<exists>v. tbl k = Some v \<and> v \<noteq> [] \<and> normalizeJapanese upper v = v"
  shows "foldl (checkEntry upper tbl) cr (map (\<lambda>k. (k, the (tbl k))) keys)
         = cr\<lparr>correct := correct cr @ keys\<rparr>"
  using assms
proof (induction keys arbitrary: cr)
  case Nil
  show ?case by simp
next
  case (Cons k keys)
  obtain v where v: "tbl k = Some v" "v \<noteq> []" "normalizeJapanese upper v = v"
    using Cons.prems [of k] by auto
  have "checkEntry upper tbl cr (k, the (tbl k)) = cr\<lparr>correct := correct cr @ [k]\<rparr>"
    using v by (simp add: checkEntry_def)
  then show ?case using Cons.IH [of "cr\<lparr>correct := correct cr @ [k]\<rparr>"] Cons.prems by simp
qed

lemma check_finds_incorrect:
  assumes "tbl k = Some v" "v \<noteq> []" "normalizeJapanese upper u \<noteq> v" "(k, u) \<in> set es"
  shows "k \<in> set (incorrect (foldl (checkEntry upper tbl) cr es))"
  using assms(4)
proof (induction es arbitrary: cr)
  case Nil
  then show ?case by simp
next
  case (Cons e es)
  show ?case
  proof (cases "e = (k, u)")
    case True
    then have "k \<in> set (incorrect (checkEntry upper tbl cr e))"
      using assms(1-3) by (simp add: checkEntry_def)
    then show ?thesis using check_keeps [of "checkEntry upper tbl cr e" upper tbl es] by auto
  next
    case False
    then show ?thesis using Cons by simp
  qed
qed

text \<open>
  C6 (round-trip check): for every puzzle produced by synthesis, \<open>checkAnswers\<close> with the
  stored answer supplied for every key of the answer table returns all keys as correct and
  none as incorrect; and when, for some key, the stored answer is supplied with one grapheme
  replaced by a different one, the altered answer being in normal form, that key is
  returned as incorrect.
\<close>

theorem check_round_trip:
  assumes "case_mapping upper" and "shuffler rnd"
    and "generateCrossword upper rnd wordList n = Inr res"
    and "tbl = answersOf (r_words res)"
  shows "(\<forall>keys. set keys = dom tbl \<longrightarrow>
            checkAnswers upper (Some (storedPuzzle res)) (map (\<lambda>k. (k, the (tbl k))) keys)
              = Inr \<lparr>correct = keys, incorrect = []\<rparr>)
       \<and> (\<forall>k v i g entries.
             tbl k = Some v \<and> i < length (spread v) \<and> g \<noteq> spread v ! i
             \<and> normalizeJapanese upper (concat ((spread v)[i := g])) = concat ((spread v)[i := g])
             \<and> (k, concat ((spread v)[i := g])) \<in> set entries \<longrightarrow>
             (\<exists>cr. checkAnswers upper (Some (storedPuzzle res)) entries = Inr cr
                   \<and> k \<in> set (incorrect cr)))"
proof -
  have stored: "v \<noteq> [] \<and> normalizeJapanese upper v = v" if tk: "tbl k = Some v" for k v
  proof -
    obtain w where w: "w \<in> set (r_words res)" "v = answer w"
      using tk assms(4) answersOf_ran by blast
    have two: "2 \<le> length (spread v)"
      and "\<exists>w0 \<in> set wordList. v = normalizeJapanese upper (answer w0)"
      using result_answers [OF assms(2,3) w(1)] w(2) by simp_all
    then obtain w0 :: WordClue where "v = normalizeJapanese upper (answer w0)" by blast
    then have "normalizeJapanese upper v = v"
      using normalize_idempotent [OF assms(1)] by simp
    moreover have "v \<noteq> []" using two by auto
    ultimately show ?thesis by simp
  qed
  have run: "checkAnswers upper (Some (storedPuzzle res)) es
        = Inr (foldl (checkEntry upper tbl) \<lparr>correct = [], incorrect = []\<rparr> es)" for es
    by (simp add: checkAnswers_def storedPuzzle_def assms(4))
  have first: "checkAnswers upper (Some (storedPuzzle res)) (map (\<lambda>k. (k, the (tbl k))) keys)
              = Inr \<lparr>correct = keys, incorrect = []\<rparr>" if "set keys = dom tbl" for keys
  proof -
    have "\<exists>v. tbl k = Some v \<and> v \<noteq> [] \<and> normalizeJapanese upper v = v" if "k \<in> set keys" for k
      using that \<open>set keys = dom tbl\<close> stored by (auto simp: dom_def)
    then show ?thesis
      unfolding run using check_all_correct [of keys tbl upper "\<lparr>correct = [], incorrect = []\<rparr>"]
      by simp
  qed
  have second: "\<exists>cr. checkAnswers upper (Some (storedPuzzle res)) entries = Inr cr
                   \<and> k \<in> set (incorrect cr)"
    if "tbl k = Some v" "i < length (spread v)" "g \<noteq> spread v ! i"
      "normalizeJapanese upper (concat ((spread v)[i := g])) = concat ((spread v)[i := g])"
      "(k, concat ((spread v)[i := g])) \<in> set entries" for k v i g entries
  proof -
    have "concat ((spread v)[i := g]) \<noteq> v"
      using altered_differs [OF that(2,3)] by (simp add: concat_spread)
    then have "normalizeJapanese upper (concat ((spread v)[i := g])) \<noteq> v"
      using that(4) by simp
    moreover have "v \<noteq> []" using stored [OF that(1)] by simp
    ultimately have "k \<in> set (incorrect (foldl (checkEntry upper tbl)
        \<lparr>correct = [], incorrect = []\<rparr> entries))"
      using that(1,5) by (intro check_finds_incorrect [where v = v]) simp_all
    then show ?thesis unfolding run by simp
  qed
  show ?thesis using first second by blast
qed

lemma s1_result_words:
  "r_words s1_result =
     [\<lparr>answer = [0x30CD, 0x30B3], clue = [0x63, 0x61, 0x74], articleLink = None, articleId = None,
       startRow = 3, startCol = 2, position = 1, orientation = Across, wlength = 2\<rparr>,
      \<lparr>answer = [0x30B3, 0x30C8], clue = [0x74, 0x68, 0x69, 0x6E, 0x67], articleLink = None,
       articleId = None, startRow = 3, startCol = 3, position = 2, orientation = Down, wlength = 2\<rparr>,
      \<lparr>answer = [0x30C8, 0x30EA], clue = [0x62, 0x69, 0x72, 0x64], articleLink = None,
       articleId = None, startRow = 4, startCol = 3, position = 3, orientation = Across, wlength = 2\<rparr>]"
  unfolding s1_result_def s1_best_def by code_simp

lemma s1_table:
  "answersOf (r_words s1_result) =
     [key_1_across \<mapsto> [0x30CD, 0x30B3], key_2_down \<mapsto> [0x30B3, 0x30C8],
      key_3_across \<mapsto> [0x30C8, 0x30EA]]"
  by (simp add: s1_result_words answersOf_def clueKey_def orientationName_def
      key_1_across_def key_2_down_def key_3_across_def)

theorem check_round_trip_witness:
  "case_mapping upperLatin \<and> shuffler keepOrder
   \<and> generateCrossword upperLatin keepOrder s1_words 7 = Inr s1_result
   \<and> checkAnswers upperLatin (Some (storedPuzzle s1_result))
        [(key_1_across, [0x30CD, 0x30B3]), (key_2_down, [0x30B3, 0x30C8]),
         (key_3_across, [0x30C8, 0x30EA])]
       = Inr \<lparr>correct = [key_1_across, key_2_down, key_3_across], incorrect = []\<rparr>
   \<and> (\<exists>cr. checkAnswers upperLatin (Some (storedPuzzle s1_result))
               [(key_1_across, [0x30CD, 0x30C8])] = Inr cr
            \<and> key_1_across \<in> set (incorrect cr))"
proof -
  let ?tbl = "answersOf (r_words s1_result)"
  note rt = check_round_trip [OF upperLatin_case_mapping shuffler_keepOrder s1_generate refl]
  have keys: "set [key_1_across, key_2_down, key_3_across] = dom ?tbl"
    unfolding s1_table by auto
  have vals: "map (\<lambda>k. (k, the (?tbl k))) [key_1_across, key_2_down, key_3_across]
      = [(key_1_across, [0x30CD, 0x30B3]), (key_2_down, [0x30B3, 0x30C8]),
         (key_3_across, [0x30C8, 0x30EA])]"
    unfolding s1_table by (simp add: key_1_across_def key_2_down_def key_3_across_def)
  have first: "checkAnswers upperLatin (Some (storedPuzzle s1_result))
        [(key_1_across, [0x30CD, 0x30B3]), (key_2_down, [0x30B3, 0x30C8]),
         (key_3_across, [0x30C8, 0x30EA])]
       = Inr \<lparr>correct = [key_1_across, key_2_down, key_3_across], incorrect = []\<rparr>"
    using rt [THEN conjunct1, rule_format, OF keys] unfolding vals .
  have sp: "spread [0x30CD, 0x30B3] = [[0x30CD], [0x30B3]]"
    by (simp add: is_high_surrogate_def)
  have alt: "concat ((spread [0x30CD, 0x30B3])[1 := [0x30C8]]) = [0x30CD, 0x30C8]"
    unfolding sp by simp
  have norm: "normalizeJapanese upperLatin [0x30CD, 0x30C8] = [0x30CD, 0x30C8]"
    by (simp add: normalizeJapanese_def upperLatin_def upperLatinUnit_def foldSmallKana_def
        replaceAll_def hiraganaToKatakana_def)
  have pre: "?tbl key_1_across = Some [0x30CD, 0x30B3]
       \<and> 1 < length (spread [0x30CD, 0x30B3]) \<and> [0x30C8] \<noteq> spread [0x30CD, 0x30B3] ! 1
       \<and> normalizeJapanese upperLatin (concat ((spread [0x30CD, 0x30B3])[1 := [0x30C8]]))
           = concat ((spread [0x30CD, 0x30B3])[1 := [0x30C8]])
       \<and> (key_1_across, concat ((spread [0x30CD, 0x30B3])[1 := [0x30C8]]))
           \<in> set [(key_1_across, [0x30CD, 0x30C8])]"
    unfolding alt norm unfolding sp s1_table
    by (simp add: key_1_across_def key_2_down_def key_3_across_def)
  have second: "\<exists>cr. checkAnswers upperLatin (Some (storedPuzzle s1_result))
               [(key_1_across, [0x30CD, 0x30C8])] = Inr cr
            \<and> key_1_across \<in> set (incorrect cr)"
    using rt [THEN conjunct2, rule_format, OF pre] .
  show ?thesis
    using upperLatin_case_mapping shuffler_keepOrder s1_generate first second by (intro conjI)
qed

section \<open>A word placed over a shorter word, and the selection of the best attempt\<close>

lemma bug_unique: "uniqueWordsOf upperLatin bug_words 5 = bug_words"
  by code_simp

lemma bug_attempt: "runAttempt 5 bug_words = bug_best"
  by code_simp

lemma bug_generate: "generateCrossword upperLatin keepOrder bug_words 5 = Inr bug_result"
proof -
  have "runAttempt 5 (keepOrder k (uniqueWordsOf upperLatin bug_words 5)) = bug_best" for k
    by (simp add: keepOrder_def bug_unique bug_attempt)
  then have "searchBest upperLatin keepOrder bug_words 5 = Some bug_best"
    by (rule searchBest_same)
  then show ?thesis
    by (simp add: generateCrossword_def bug_result_def bug_best_def)
qed

lemma bug_result_words:
  "r_words bug_result =
     [\<lparr>answer = [0x30A4, 0x30A6, 0x30A8], clue = [0x61], articleLink = None, articleId = None,
       startRow = 2, startCol = 1, position = 0, orientation = Across, wlength = 3\<rparr>,
      \<lparr>answer = [0x30A2, 0x30A4, 0x30A6, 0x30A8], clue = [0x62], articleLink = None,
       articleId = None, startRow = 2, startCol = 0, position = 2, orientation = Across, wlength = 4\<rparr>,
      \<lparr>answer = [0x30AB, 0x30AD, 0x30A6, 0x30AF, 0x30B1], clue = [0x63], articleLink = None,
       articleId = None, startRow = 0, startCol = 2, position = 1, orientation = Down, wlength = 5\<rparr>]"
  unfolding bug_result_def bug_best_def by code_simp

lemma bug_result_row:
  "r_grid bug_result ! 2 =
     [\<lparr>letter = Some [0x30A2], number = Some 2, isBlack = False\<rparr>,
      \<lparr>letter = Some [0x30A4], number = None, isBlack = False\<rparr>,
      \<lparr>letter = Some [0x30A6], number = None, isBlack = False\<rparr>,
      \<lparr>letter = Some [0x30A8], number = None, isBlack = False\<rparr>,
      \<lparr>letter = None, number = None, isBlack = True\<rparr>]"
  unfolding bug_result_def bug_best_def by code_simp

text \<open>
  C4 (termination invariant), evaluated on the code: the candidates \<open>bug_words\<close> on a 5 x 5
  grid, taken in their order. The first word is placed at row 2, columns 1 to 3; the second
  word, which extends it by one grapheme on the left, is then accepted over it at columns 0
  to 3. In the returned grid the cell before the first grapheme of the first word is a
  letter cell, not a blocked one.
\<close>

theorem termination_broken:
  "generateCrossword upperLatin keepOrder bug_words 5 = Inr bug_result
   \<and> answer (r_words bug_result ! 0) = [0x30A4, 0x30A6, 0x30A8]
   \<and> orientation (r_words bug_result ! 0) = Across
   \<and> startRow (r_words bug_result ! 0) = 2
   \<and> startCol (r_words bug_result ! 0) = 1
   \<and> letter (r_grid bug_result ! 2 ! (1 - 1)) = Some [0x30A2]"
  by (simp add: bug_generate bug_result_words bug_result_row)

text \<open>
  C5 (clue numbering), evaluated on the code at the same input: the first word of the
  returned list starts at row 2, column 1; that cell is a letter cell with no number, since
  its left neighbour is a letter, and the word's number is 0.
\<close>

theorem start_not_numbered:
  "generateCrossword upperLatin keepOrder bug_words 5 = Inr bug_result
   \<and> answer (r_words bug_result ! 0) = [0x30A4, 0x30A6, 0x30A8]
   \<and> startRow (r_words bug_result ! 0) = 2
   \<and> startCol (r_words bug_result ! 0) = 1
   \<and> position (r_words bug_result ! 0) = 0
   \<and> number (r_grid bug_result ! 2 ! 1) = None
   \<and> letter (r_grid bug_result ! 2 ! 1) = Some [0x30A4]"
  by (simp add: bug_generate bug_result_words bug_result_row)

lemma attemptLoop_stable:
  assumes "\<And>k. attempt \<le> k \<Longrightarrow> \<not> replacesBest (Some x) (runAttempt n (rnd k uniqueWords))"
  shows "attemptLoop rnd uniqueWords n attempt (Some x) = Some x"
  using assms
proof (induction "maxAttempts - attempt" arbitrary: attempt)
  case 0
  then show ?case by (simp add: attemptLoop_done)
next
  case (Suc d)
  then have lt: "attempt < maxAttempts" and d: "d = maxAttempts - (attempt + 1)" by simp_all
  have keep: "\<not> replacesBest (Some x) (runAttempt n (rnd attempt uniqueWords))"
    using Suc.prems [of attempt] by simp
  have next_ok: "attemptLoop rnd uniqueWords n (attempt + 1) (Some x) = Some x"
    using Suc.hyps(1) [OF d] Suc.prems by simp
  show ?case
    using attemptLoop_step [OF lt, of rnd uniqueWords n "Some x"] keep next_ok
    by (simp add: Let_def)
qed

lemma perm3:
  assumes "mset s = mset [a, b, c]"
  shows "s \<in> {[a, b, c], [a, c, b], [b, a, c], [b, c, a], [c, a, b], [c, b, a]}"
proof -
  have "length s = length [a, b, c]" using assms by (rule mset_eq_length)
  then obtain x y z where s: "s = [x, y, z]"
    by (cases s; cases "tl s"; cases "tl (tl s)") auto
  have x: "x \<in> {a, b, c}" and y: "y \<in> {a, b, c}" and z: "z \<in> {a, b, c}"
    using mset_eq_setD [OF assms] unfolding s by auto
  have cnt: "count (mset [x, y, z]) u = count (mset [a, b, c]) u" for u
    using assms unfolding s by simp
  show ?thesis
    unfolding s using x y z cnt [of a] cnt [of b] cnt [of c]
    by (auto split: if_splits)
qed

lemma bug_orders:
  assumes "mset s = mset bug_words"
  shows "\<not> replacesBest (Some bug_best) (runAttempt 5 s)"
proof -
  let ?a = "mkWord [0x30A4, 0x30A6, 0x30A8] [0x61]"
  let ?b = "mkWord [0x30A2, 0x30A4, 0x30A6, 0x30A8] [0x62]"
  let ?c = "mkWord [0x30AB, 0x30AD, 0x30A6, 0x30AF, 0x30B1] [0x63]"
  have "s \<in> {[?a, ?b, ?c], [?a, ?c, ?b], [?b, ?a, ?c], [?b, ?c, ?a], [?c, ?a, ?b], [?c, ?b, ?a]}"
    using assms unfolding bug_words_def by (rule perm3)
  moreover have "\<not> replacesBest (Some bug_best) (runAttempt 5 [?a, ?b, ?c])" by code_simp
  moreover have "\<not> replacesBest (Some bug_best) (runAttempt 5 [?a, ?c, ?b])" by code_simp
  moreover have "\<not> replacesBest (Some bug_best) (runAttempt 5 [?b, ?a, ?c])" by code_simp
  moreover have "\<not> replacesBest (Some bug_best) (runAttempt 5 [?b, ?c, ?a])" by code_simp
  moreover have "\<not> replacesBest (Some bug_best) (runAttempt 5 [?c, ?a, ?b])" by code_simp
  moreover have "\<not> replacesBest (Some bug_best) (runAttempt 5 [?c, ?b, ?a])" by code_simp
  ultimately show ?thesis by auto
qed

lemma bug_any_shuffle:
  assumes "shuffler rnd" and "rnd 0 bug_words = bug_words"
  shows "generateCrossword upperLatin rnd bug_words 5 = Inr bug_result"
proof -
  have stay: "\<not> replacesBest (Some bug_best) (runAttempt 5 (rnd k bug_words))" for k
    using assms(1) by (intro bug_orders) (simp add: shuffler_def)
  have rest: "attemptLoop rnd bug_words 5 (0 + 1) (Some bug_best) = Some bug_best"
    by (rule attemptLoop_stable) (rule stay)
  have pos: "0 < maxAttempts" by (simp add: maxAttempts_def)
  have cur0: "runAttempt 5 (rnd 0 bug_words) = bug_best"
    by (simp only: assms(2) bug_attempt)
  have nostop: "\<not> (targetDensity \<le> b_density bug_best \<and> minWords 5 \<le> length (b_placed bug_best))"
    by (simp add: bug_best_def targetDensity_def)
  have rep: "replacesBest None bug_best" by (simp add: replacesBest_def)
  have "attemptLoop rnd bug_words 5 0 None = Some bug_best"
    using attemptLoop_step [OF pos, of rnd bug_words 5 None]
    unfolding Let_def cur0 if_P [OF rep] if_not_P [OF nostop] rest .
  then have "searchBest upperLatin rnd bug_words 5 = Some bug_best"
    by (simp only: searchBest_def bug_unique)
  moreover have "b_placed bug_best \<noteq> []" by (simp add: bug_best_def)
  ultimately show ?thesis
    by (simp add: generateCrossword_def bug_result_def)
qed

lemma shuffler_lastFirstOnce: "shuffler lastFirstOnce"
proof -
  have "mset (rotate1 ws) = mset ws" for ws :: "WordClue list"
    by (cases ws) simp_all
  then show ?thesis by (simp add: shuffler_def lastFirstOnce_def)
qed

lemma sel_unique: "uniqueWordsOf upperLatin sel_words 6 = sel_words"
  by code_simp

lemma sel_attempt_first: "runAttempt 6 (lastFirstOnce 0 sel_words) = sel_first"
  by code_simp

lemma sel_attempt_second: "runAttempt 6 sel_words = sel_second"
  by code_simp

lemma sel_attempt_later: "0 < k \<Longrightarrow> runAttempt 6 (lastFirstOnce k sel_words) = sel_second"
  by (simp add: lastFirstOnce_def sel_attempt_second)

lemma sel_replaced: "replacesBest (Some sel_first) sel_second"
  by (simp add: replacesBest_def sel_first_def sel_second_def)

lemma sel_lower: "b_density sel_second < b_density sel_first"
  by (simp add: sel_first_def sel_second_def)

lemma sel_loop_from_1:
  "attemptLoop lastFirstOnce sel_words 6 1 (Some sel_first) = Some sel_second"
proof -
  have one: "(1::nat) < maxAttempts" by (simp add: maxAttempts_def)
  have cur: "runAttempt 6 (lastFirstOnce 1 sel_words) = sel_second"
    by (simp add: sel_attempt_later)
  have nostop: "\<not> (targetDensity \<le> b_density sel_second
      \<and> minWords 6 \<le> length (b_placed sel_second))"
    by (simp add: sel_second_def targetDensity_def)
  have rest: "attemptLoop lastFirstOnce sel_words 6 (1 + 1) (Some sel_second) = Some sel_second"
  proof (rule attemptLoop_stable)
    fix k :: nat assume "1 + 1 \<le> k"
    then have "runAttempt 6 (lastFirstOnce k sel_words) = sel_second"
      by (simp add: sel_attempt_later)
    then show "\<not> replacesBest (Some sel_second) (runAttempt 6 (lastFirstOnce k sel_words))"
      by (simp add: replacesBest_same)
  qed
  show ?thesis
    using attemptLoop_step [OF one, of lastFirstOnce sel_words 6 "Some sel_first"]
    unfolding Let_def cur if_P [OF sel_replaced] if_not_P [OF nostop] rest .
qed

lemma sel_search: "searchBest upperLatin lastFirstOnce sel_words 6 = Some sel_second"
proof -
  have pos: "0 < maxAttempts" by (simp add: maxAttempts_def)
  have nostop: "\<not> (targetDensity \<le> b_density sel_first
      \<and> minWords 6 \<le> length (b_placed sel_first))"
    by (simp add: sel_first_def targetDensity_def)
  have rep: "replacesBest None sel_first" by (simp add: replacesBest_def)
  have rest: "attemptLoop lastFirstOnce sel_words 6 (0 + 1) (Some sel_first) = Some sel_second"
    using sel_loop_from_1 by simp
  have "attemptLoop lastFirstOnce sel_words 6 0 None = Some sel_second"
    using attemptLoop_step [OF pos, of lastFirstOnce sel_words 6 None]
    unfolding Let_def sel_attempt_first if_P [OF rep] if_not_P [OF nostop] rest .
  then show ?thesis by (simp only: searchBest_def sel_unique)
qed

text \<open>
  C3 (attempt selection) fails as stated: on \<open>sel_words\<close>, the first attempt fills six
  cells with one word, the second fills five cells with two words; the second has the lower
  density and replaces the first as the best result, and it is the best result at the end
  of the loop.
\<close>

theorem lower_density_replaces_best:
  "shuffler lastFirstOnce
   \<and> runAttempt 6 (lastFirstOnce 0 (uniqueWordsOf upperLatin sel_words 6)) = sel_first
   \<and> runAttempt 6 (lastFirstOnce 1 (uniqueWordsOf upperLatin sel_words 6)) = sel_second
   \<and> b_density sel_second < b_density sel_first
   \<and> replacesBest (Some sel_first) sel_second
   \<and> searchBest upperLatin lastFirstOnce sel_words 6 = Some sel_second"
  using shuffler_lastFirstOnce sel_attempt_first sel_attempt_later [of 1] sel_lower sel_replaced
        sel_search
  by (simp add: sel_unique)

text \<open>
  C3 as amended: in every turn of the loop the retained best result is replaced by the
  result of the attempt exactly when there is no best result yet, or the density of the
  attempt is strictly higher than that of the best, or its number of placed words is
  strictly higher; the loop ends early when the attempt reaches the target density and the
  minimum number of words.
\<close>

theorem attempt_selection:
  assumes "attempt < maxAttempts"
  shows "attemptLoop rnd uniqueWords n attempt bestResult =
     (let cur = runAttempt n (rnd attempt uniqueWords);
          kept = (if bestResult = None
                     \<or> (\<exists>b. bestResult = Some b
                           \<and> (b_density b < b_density cur
                                \<or> length (b_placed b) < length (b_placed cur)))
                  then Some cur else bestResult)
      in if targetDensity \<le> b_density cur \<and> minWords n \<le> length (b_placed cur)
         then kept
         else attemptLoop rnd uniqueWords n (attempt + 1) kept)"
proof -
  have "replacesBest bestResult cur \<longleftrightarrow>
        bestResult = None
        \<or> (\<exists>b. bestResult = Some b
              \<and> (b_density b < b_density cur \<or> length (b_placed b) < length (b_placed cur)))"
    for cur
    by (cases bestResult) (simp_all add: replacesBest_def)
  then show ?thesis
    using attemptLoop_step [OF assms, of rnd uniqueWords n bestResult] by simp
qed

theorem attempt_selection_witness:
  "(1::nat) < maxAttempts
   \<and> attemptLoop lastFirstOnce sel_words 6 1 (Some sel_first)
       = attemptLoop lastFirstOnce sel_words 6 (1 + 1) (Some sel_second)
   \<and> attemptLoop lastFirstOnce sel_words 6 2 (Some sel_second)
       = attemptLoop lastFirstOnce sel_words 6 (2 + 1) (Some sel_second)"
proof -
  have one: "(1::nat) < maxAttempts" and two: "(2::nat) < maxAttempts"
    by (simp_all add: maxAttempts_def)
  have cur1: "runAttempt 6 (lastFirstOnce 1 sel_words) = sel_second"
    and cur2: "runAttempt 6 (lastFirstOnce 2 sel_words) = sel_second"
    by (simp_all add: sel_attempt_later)
  have nostop: "\<not> (targetDensity \<le> b_density sel_second
      \<and> minWords 6 \<le> length (b_placed sel_second))"
    by (simp add: sel_second_def targetDensity_def)
  have more: "b_density sel_first < b_density sel_second
      \<or> length (b_placed sel_first) < length (b_placed sel_second)"
    by (simp add: sel_first_def sel_second_def)
  have a: "attemptLoop lastFirstOnce sel_words 6 1 (Some sel_first)
       = attemptLoop lastFirstOnce sel_words 6 (1 + 1) (Some sel_second)"
    using attempt_selection [OF one, of lastFirstOnce sel_words 6 "Some sel_first"] more nostop
    unfolding Let_def cur1 by simp
  have b: "attemptLoop lastFirstOnce sel_words 6 2 (Some sel_second)
       = attemptLoop lastFirstOnce sel_words 6 (2 + 1) (Some sel_second)"
    using attempt_selection [OF two, of lastFirstOnce sel_words 6 "Some sel_second"] nostop
    unfolding Let_def cur2 by simp
  show ?thesis using one a b by (intro conjI)
qed

end
